theory Spec2Isabelle
  imports Main "HOL-Library.Sublist"
begin

section \<open>Text\<close>

text \<open>
  Python strings are modelled as HOL strings. The classification of characters
  (\<open>str.lower\<close>, the regular-expression classes \<open>\w\<close>, \<open>[a-zA-Z0-9]\<close>, \<open>str.isspace\<close>)
  is written out for ASCII text; every other character is left unchanged by \<open>lower\<close> and
  belongs to no class. Outside ASCII Python knows more: further letters, digits and
  spaces, and, under \<open>re.IGNORECASE\<close>, four letters that match an ASCII letter
  (U+017F for \<open>s\<close>, U+212A for \<open>k\<close>, U+0130 and U+0131 for \<open>i\<close>). A property that
  depends on the classes is therefore stated for ASCII text.
\<close>

definition ascii_upper :: string where
  "ascii_upper = ''ABCDEFGHIJKLMNOPQRSTUVWXYZ''"

definition ascii_lower :: string where
  "ascii_lower = ''abcdefghijklmnopqrstuvwxyz''"

definition ascii_digits :: string where
  "ascii_digits = ''0123456789''"

definition lower_char :: "char \<Rightarrow> char" where
  "lower_char c = (case map_of (zip ascii_upper ascii_lower) c of Some l \<Rightarrow> l | None \<Rightarrow> c)"

text \<open>\<open>str.lower()\<close>\<close>

definition lower :: "string \<Rightarrow> string" where
  "lower s = map lower_char s"

text \<open>\<open>str.isascii()\<close> on one character.\<close>

definition is_ascii :: "char \<Rightarrow> bool" where
  "is_ascii c = ((of_char c :: nat) < 128)"

definition is_alnum :: "char \<Rightarrow> bool" where
  "is_alnum c = (c \<in> set (ascii_lower @ ascii_upper @ ascii_digits))"

text \<open>The class \<open>\w\<close> of the \<open>re\<close> module.\<close>

definition is_word_char :: "char \<Rightarrow> bool" where
  "is_word_char c = (is_alnum c \<or> c = CHR ''_'')"

text \<open>Python's \<open>k in s\<close> on strings: \<open>k\<close> occurs in \<open>s\<close> as a contiguous block.\<close>

fun contains :: "string \<Rightarrow> string \<Rightarrow> bool" where
  "contains k [] = (k = [])"
| "contains k (c # s) = (take (length k) (c # s) = k \<or> contains k s)"

section \<open>The archive crawler (pastein.py)\<close>

subsection \<open>Keyword matching\<close>

text \<open>
  \<open>\b\<close> at position \<open>i\<close> of \<open>s\<close>: exactly one of the characters before and after the
  position is a word character (the ends of the string count as non-word).
\<close>

definition word_boundary :: "string \<Rightarrow> nat \<Rightarrow> bool" where
  "word_boundary s i =
     ((0 < i \<and> i \<le> length s \<and> is_word_char (s ! (i - 1))) \<noteq>
      (i < length s \<and> is_word_char (s ! i)))"

text \<open>
  \<open>re.search(r'\b' + re.escape(k) + r'\b', s)\<close>: the escaped keyword matches itself
  literally, so the search succeeds iff \<open>k\<close> occurs at some position with a word boundary
  on both sides.
\<close>

definition search_bounded :: "string \<Rightarrow> string \<Rightarrow> bool" where
  "search_bounded k s =
     (\<exists>i \<in> set [0 ..< Suc (length s)].
        word_boundary s i \<and> i + length k \<le> length s \<and> take (length k) (drop i s) = k \<and>
        word_boundary s (i + length k))"

text \<open>
  The fields \<open>self.keywords\<close> and \<open>self.output_file\<close> of \<open>PastebinCrawler\<close> (the URLs
  and headers are constants of the transport).
\<close>

record crawler =
  crawler_keywords :: "string list"
  crawler_output_file :: string

definition default_keywords :: "string list" where
  "default_keywords =
     [''crypto'', ''bitcoin'', ''ethereum'', ''blockchain'', ''t.me'',
      ''btc'', ''eth'', ''nft'', ''defi'', ''wallet'', ''binance'', ''coinbase'']"

text \<open>
  \<open>PastebinCrawler.__init__\<close>: \<open>keywords or [...]\<close> takes the defaults when no list or an
  empty list is given.
\<close>

definition init_crawler :: "string list option \<Rightarrow> string \<Rightarrow> crawler" where
  "init_crawler kws out =
     \<lparr> crawler_keywords = (case kws of None \<Rightarrow> default_keywords
                    | Some ks \<Rightarrow> if ks = [] then default_keywords else ks),
       crawler_output_file = out \<rparr>"

text \<open>The test of one keyword inside the loop of \<open>check_keywords\<close>.\<close>

definition keyword_hit :: "string \<Rightarrow> string \<Rightarrow> bool" where
  "keyword_hit content_lower keyword =
     (search_bounded (lower keyword) content_lower \<or> contains (lower keyword) content_lower)"

text \<open>
  \<open>check_keywords\<close>; the argument is \<open>None\<close> for Python's \<open>None\<close>. \<open>not content\<close> holds for
  \<open>None\<close> and for the empty string.
\<close>

definition check_keywords :: "crawler \<Rightarrow> string option \<Rightarrow> string list" where
  "check_keywords c content =
     (case content of
        None \<Rightarrow> []
      | Some text \<Rightarrow>
          if text = [] then []
          else filter (keyword_hit (lower text)) (crawler_keywords c))"

text \<open>
  The plain substring filter the keyword matcher is compared with: the configured
  keywords whose lowercase form is a substring of the lowercased text, in configuration
  order.
\<close>

definition substring_filter :: "string list \<Rightarrow> string \<Rightarrow> string list" where
  "substring_filter ks text = filter (\<lambda>k. sublist (lower k) (lower text)) ks"

section \<open>Files\<close>

text \<open>
  The file system is a store from paths to file states. \<open>Inaccessible\<close> is a path that
  exists but that \<open>open\<close> refuses in every mode (it raises \<open>OSError\<close>), so that the
  handlers of the source are branches of the model. Log files are not part of the store.
\<close>

datatype file_state = Absent | Inaccessible | Content string

type_synonym filesystem = "string \<Rightarrow> file_state"

datatype error = OSError | ValueError

datatype outcome = Returned | Raised

text \<open>
  The file operations of the two scripts, one step each: \<open>open(p, 'w')\<close> creates or
  truncates, \<open>open(p, 'a')\<close> creates or keeps, \<open>f.write(t)\<close> adds \<open>t\<close> at the end of the
  opened file.
\<close>

datatype io_step = OpenWrite string | OpenAppend string | Write string string

fun do_step :: "filesystem \<Rightarrow> io_step \<Rightarrow> filesystem option" where
  "do_step fs (OpenWrite p) =
     (case fs p of Inaccessible \<Rightarrow> None | _ \<Rightarrow> Some (fs(p := Content [])))"
| "do_step fs (OpenAppend p) =
     (case fs p of
        Inaccessible \<Rightarrow> None
      | Absent \<Rightarrow> Some (fs(p := Content []))
      | Content s \<Rightarrow> Some fs)"
| "do_step fs (Write p t) =
     (case fs p of Content s \<Rightarrow> Some (fs(p := Content (s @ t))) | _ \<Rightarrow> None)"

text \<open>
  A sequence of steps runs until one raises; the steps before it have taken effect.
\<close>

fun exec :: "filesystem \<Rightarrow> io_step list \<Rightarrow> outcome \<times> filesystem" where
  "exec fs [] = (Returned, fs)"
| "exec fs (a # steps) =
     (case do_step fs a of None \<Rightarrow> (Raised, fs) | Some fs' \<Rightarrow> exec fs' steps)"

text \<open>\<open>open(p, 'r').read()\<close>\<close>

definition read_text :: "filesystem \<Rightarrow> string \<Rightarrow> error + string" where
  "read_text fs p = (case fs p of Content s \<Rightarrow> Inr s | _ \<Rightarrow> Inl OSError)"

text \<open>The file system in which no path exists.\<close>

definition no_files :: filesystem where
  "no_files = (\<lambda>p. Absent)"

section \<open>Decimal integers\<close>

definition is_digit :: "char \<Rightarrow> bool" where
  "is_digit c = (c \<in> set ascii_digits)"

definition digit_val :: "char \<Rightarrow> nat" where
  "digit_val c = of_char c - 48"

definition digit_char :: "nat \<Rightarrow> char" where
  "digit_char d = ascii_digits ! d"

fun str_nat :: "nat \<Rightarrow> string" where
  "str_nat n = (if n < 10 then [digit_char n] else str_nat (n div 10) @ [digit_char (n mod 10)])"

declare str_nat.simps [simp del]

text \<open>\<open>str(n)\<close> of a Python integer.\<close>

definition py_str :: "int \<Rightarrow> string" where
  "py_str i = (if i < 0 then CHR ''-'' # str_nat (nat (- i)) else str_nat (nat i))"

text \<open>\<open>str.isspace\<close> on ASCII: tab, line feed, VT, FF, CR, FS, GS, RS, US and the space.\<close>

definition is_space :: "char \<Rightarrow> bool" where
  "is_space c =
     (c \<in> set [CHR 0x09, CHR 0x0A, CHR 0x0B, CHR 0x0C, CHR 0x0D,
               CHR 0x1C, CHR 0x1D, CHR 0x1E, CHR 0x1F, CHR 0x20])"

text \<open>\<open>str.strip()\<close>\<close>

definition strip :: "string \<Rightarrow> string" where
  "strip s = rev (dropWhile is_space (rev (dropWhile is_space s)))"

text \<open>
  The digits of an integer literal accepted by \<open>int\<close>, read after a first digit: each
  further character is a digit, or one underscore followed by a digit.
\<close>

fun digits_tail :: "nat \<Rightarrow> string \<Rightarrow> nat option" where
  "digits_tail acc [] = Some acc"
| "digits_tail acc (c # cs) =
     (if is_digit c then digits_tail (10 * acc + digit_val c) cs
      else if c = CHR ''_'' then
        (case cs of
           [] \<Rightarrow> None
         | d # ds \<Rightarrow> if is_digit d then digits_tail (10 * acc + digit_val d) ds else None)
      else None)"

definition parse_nat :: "string \<Rightarrow> nat option" where
  "parse_nat s =
     (case s of
        [] \<Rightarrow> None
      | c # cs \<Rightarrow> if is_digit c then digits_tail (digit_val c) cs else None)"

text \<open>
  \<open>int(s)\<close> for a string, base ten: surrounding whitespace is dropped, one sign may come
  first, anything else raises \<open>ValueError\<close>.
\<close>

definition py_int :: "string \<Rightarrow> error + int" where
  "py_int s =
     (case strip s of
        [] \<Rightarrow> Inl ValueError
      | c # cs \<Rightarrow>
          if c = CHR ''-'' then
            (case parse_nat cs of None \<Rightarrow> Inl ValueError | Some n \<Rightarrow> Inr (- int n))
          else if c = CHR ''+'' then
            (case parse_nat cs of None \<Rightarrow> Inl ValueError | Some n \<Rightarrow> Inr (int n))
          else
            (case parse_nat (c # cs) of None \<Rightarrow> Inl ValueError | Some n \<Rightarrow> Inr (int n)))"

section \<open>The channel extractor (program.py)\<close>

record extractor =
  api_id :: int
  api_hash :: string
  channel_username :: string
  output_file :: string
  last_id_file :: string

text \<open>
  \<open>TelegramOnionExtractor.__init__\<close> as \<open>main\<close> calls it: the credentials and the
  channel are given, the two paths keep their defaults.
\<close>

definition init_extractor :: "int \<Rightarrow> string \<Rightarrow> string \<Rightarrow> extractor" where
  "init_extractor aid ahash channel =
     \<lparr> api_id = aid, api_hash = ahash, channel_username = channel,
       output_file = ''onion_links.jsonl'', last_id_file = ''last_message_id.txt'' \<rparr>"

subsection \<open>The checkpoint\<close>

text \<open>The body of the \<open>try\<close> block of \<open>get_last_message_id\<close>.\<close>

definition read_last_message_id :: "extractor \<Rightarrow> filesystem \<Rightarrow> error + int" where
  "read_last_message_id x fs =
     (if fs (last_id_file x) \<noteq> Absent then
        (case read_text fs (last_id_file x) of
           Inl e \<Rightarrow> Inl e
         | Inr s \<Rightarrow> py_int (strip s))
      else Inr 0)"

text \<open>\<open>get_last_message_id\<close>: every exception of the body is caught and answered by 0.\<close>

definition get_last_message_id :: "extractor \<Rightarrow> filesystem \<Rightarrow> int" where
  "get_last_message_id x fs =
     (case read_last_message_id x fs of Inl e \<Rightarrow> 0 | Inr n \<Rightarrow> n)"

text \<open>The file operations of \<open>save_last_message_id\<close>, in the order they happen.\<close>

definition save_last_message_id_steps :: "extractor \<Rightarrow> int \<Rightarrow> io_step list" where
  "save_last_message_id_steps x message_id =
     [OpenWrite (last_id_file x), Write (last_id_file x) (py_str message_id)]"

text \<open>
  \<open>save_last_message_id\<close>: an exception is caught and logged, the file system stays as
  the steps before it left it.
\<close>

definition save_last_message_id :: "extractor \<Rightarrow> int \<Rightarrow> filesystem \<Rightarrow> filesystem" where
  "save_last_message_id x message_id fs = snd (exec fs (save_last_message_id_steps x message_id))"

text \<open>
  The file system when the process stops after the first \<open>k\<close> file operations of
  \<open>save_last_message_id\<close>.
\<close>

definition save_last_message_id_interrupted ::
  "nat \<Rightarrow> extractor \<Rightarrow> int \<Rightarrow> filesystem \<Rightarrow> filesystem" where
  "save_last_message_id_interrupted k x message_id fs =
     snd (exec fs (take k (save_last_message_id_steps x message_id)))"

subsection \<open>Link extraction\<close>

text \<open>
  The pattern \<open>(https?:\/\/)?([a-zA-Z0-9\-\.]+)\.onion(\/[a-zA-Z0-9\-\.\/\?\=\&\%]*)?\<close>,
  compiled with \<open>re.IGNORECASE\<close>, is matched the way the backtracking engine of \<open>re\<close>
  does it. The two character classes:
\<close>

definition is_host_char :: "char \<Rightarrow> bool" where
  "is_host_char c = (is_alnum c \<or> c \<in> set ''-.'')"

definition is_path_char :: "char \<Rightarrow> bool" where
  "is_path_char c = (is_alnum c \<or> c \<in> set ''-./?=&%'')"

text \<open>
  A literal of the pattern, given in lowercase, matches at the start of \<open>s\<close> in any
  case (on ASCII text, where ignoring case is comparing the lowercase forms).
\<close>

definition starts_with_ci :: "string \<Rightarrow> string \<Rightarrow> bool" where
  "starts_with_ci literal s = (take (length literal) (lower s) = literal)"

text \<open>
  Group 1, \<open>https?:\/\/\<close>: the number of characters it takes at the start of \<open>s\<close>, if it
  matches there.
\<close>

definition match_protocol :: "string \<Rightarrow> nat option" where
  "match_protocol s =
     (if starts_with_ci ''https://'' s then Some 8
      else if starts_with_ci ''http://'' s then Some 7
      else None)"

text \<open>
  Group 2 followed by \<open>\.onion\<close>: the greedy \<open>+\<close> first takes the whole run of host
  characters and gives them back one at a time, down to one character, until \<open>.onion\<close>
  follows. \<open>host_length k s\<close> tries the lengths \<open>k\<close>, \<open>k - 1\<close>, ..., 1.
\<close>

fun host_length :: "nat \<Rightarrow> string \<Rightarrow> nat option" where
  "host_length 0 s = None"
| "host_length (Suc k) s =
     (if starts_with_ci ''.onion'' (drop (Suc k) s) then Some (Suc k) else host_length k s)"

definition match_host :: "string \<Rightarrow> nat option" where
  "match_host s = host_length (length (takeWhile is_host_char s)) s"

text \<open>Group 3, optional and greedy: a slash and the run of path characters after it.\<close>

definition match_path :: "string \<Rightarrow> string" where
  "match_path s =
     (case s of
        [] \<Rightarrow> []
      | c # cs \<Rightarrow> if c = CHR ''/'' then c # takeWhile is_path_char cs else [])"

text \<open>
  The pattern from group 2 on, after group 1 has taken \<open>protocol\<close>: the three groups and
  the text left after the match.
\<close>

definition match_from_host :: "string \<Rightarrow> string \<Rightarrow> ((string \<times> string \<times> string) \<times> string) option" where
  "match_from_host protocol s =
     (case match_host s of
        None \<Rightarrow> None
      | Some k \<Rightarrow>
          let after = drop (k + 6) s; path = match_path after
          in Some ((protocol, take k s, path), drop (length path) after))"

text \<open>
  A match starting at the first character of \<open>s\<close>: with the protocol when that leads to
  a match, without it otherwise (an unmatched group is the empty string in the tuples of
  \<open>findall\<close>).
\<close>

definition match_here :: "string \<Rightarrow> ((string \<times> string \<times> string) \<times> string) option" where
  "match_here s =
     (case match_protocol s of
        None \<Rightarrow> match_from_host [] s
      | Some n \<Rightarrow>
          (case match_from_host (take n s) (drop n s) of
             None \<Rightarrow> match_from_host [] s
           | Some m \<Rightarrow> Some m))"

text \<open>
  \<open>onion_pattern.findall\<close>: the leftmost match, then the search goes on after it; where
  nothing matches the search moves one character on.
\<close>

function findall :: "string \<Rightarrow> (string \<times> string \<times> string) list" where
  "findall s =
     (if s = [] then []
      else
        (case match_here s of
           None \<Rightarrow> findall (tl s)
         | Some (groups, rest) \<Rightarrow> groups # findall rest))"
  by pat_completeness auto
termination
proof (relation "measure length")
  show "wf (measure length)"
    by simp
next
  fix s :: string
  assume "s \<noteq> []"
  then show "(tl s, s) \<in> measure length"
    by (cases s) simp_all
next
  fix s rest :: string and m groups
  assume nonempty: "s \<noteq> []" and found: "match_here s = Some m" and m: "(groups, rest) = m"
  have shorter: "length rest \<le> length t - 6"
    if "match_from_host p t = Some (groups, rest)" for p t
    using that by (auto simp: match_from_host_def Let_def split: option.splits)
  from found m obtain p t where "match_from_host p t = Some (groups, rest)"
    and "length t \<le> length s"
    by (auto simp: match_here_def split: option.splits)
  with shorter [of p t] nonempty have "length rest < length s"
    by (cases s) auto
  then show "(rest, s) \<in> measure length"
    by simp
qed

declare findall.simps [simp del]

text \<open>The body of the loop of \<open>extract_onion_links\<close>.\<close>

definition full_url :: "string \<times> string \<times> string \<Rightarrow> string" where
  "full_url m =
     (case m of (g1, g2, g3) \<Rightarrow>
        let protocol = (if g1 \<noteq> [] then g1 else ''http://'');
            domain = g2 @ ''.onion'';
            path = (if g3 \<noteq> [] then g3 else [])
        in protocol @ domain @ path)"

definition extract_onion_links :: "string option \<Rightarrow> string list" where
  "extract_onion_links content =
     (case content of
        None \<Rightarrow> []
      | Some text \<Rightarrow> if text = [] then [] else map full_url (findall text))"

subsection \<open>Serialised records\<close>

text \<open>
  \<open>json.dumps\<close> with its defaults (\<open>ensure_ascii\<close>, separators \<open>", "\<close> and \<open>": "\<close>) on
  the dictionaries the two scripts build: strings and lists of strings.
\<close>

definition hex_digits :: string where
  "hex_digits = ''0123456789abcdef''"

definition json_escape :: "char \<Rightarrow> string" where
  "json_escape c =
     (if c = CHR 0x22 then [CHR 0x5C, CHR 0x22]
      else if c = CHR 0x5C then [CHR 0x5C, CHR 0x5C]
      else if c = CHR 0x0A then [CHR 0x5C, CHR ''n'']
      else if c = CHR 0x0D then [CHR 0x5C, CHR ''r'']
      else if c = CHR 0x09 then [CHR 0x5C, CHR ''t'']
      else if c = CHR 0x08 then [CHR 0x5C, CHR ''b'']
      else if c = CHR 0x0C then [CHR 0x5C, CHR ''f'']
      else if 32 \<le> (of_char c :: nat) \<and> (of_char c :: nat) \<le> 126 then [c]
      else [CHR 0x5C, CHR ''u'', CHR ''0'', CHR ''0'',
            hex_digits ! (of_char c div 16), hex_digits ! (of_char c mod 16)])"

definition json_string :: "string \<Rightarrow> string" where
  "json_string s = [CHR 0x22] @ concat (map json_escape s) @ [CHR 0x22]"

fun join :: "string \<Rightarrow> string list \<Rightarrow> string" where
  "join sep [] = []"
| "join sep [x] = x"
| "join sep (x # y # ys) = x @ sep @ join sep (y # ys)"

definition json_list :: "string list \<Rightarrow> string" where
  "json_list items = ''['' @ join '', '' items @ '']''"

definition json_object :: "(string \<times> string) list \<Rightarrow> string" where
  "json_object members =
     ''{'' @ join '', '' (map (\<lambda>(k, v). json_string k @ '': '' @ v) members) @ ''}''"

definition newline :: string where
  "newline = [CHR 0x0A]"

subsection \<open>Saving links and processing messages\<close>

text \<open>
  The line \<open>save_link\<close> writes; \<open>now\<close> is the reading of the clock,
  \<open>datetime.utcnow().strftime("%Y-%m-%dT%H:%M:%SZ")\<close>.
\<close>

definition link_entry :: "extractor \<Rightarrow> string \<Rightarrow> string \<Rightarrow> string" where
  "link_entry x now url =
     json_object
       [(''source'', json_string ''telegram''),
        (''url'', json_string url),
        (''discovered_at'', json_string now),
        (''context'', json_string (''Found in Telegram channel @'' @ channel_username x)),
        (''status'', json_string ''pending'')]"

text \<open>\<open>save_link\<close>: an exception of the append is caught and logged.\<close>

definition save_link :: "extractor \<Rightarrow> string \<Rightarrow> string \<Rightarrow> filesystem \<Rightarrow> filesystem" where
  "save_link x now url fs =
     snd (exec fs [OpenAppend (output_file x),
                   Write (output_file x) (link_entry x now url @ newline)])"

text \<open>
  A message of the channel: its identifier and its text (\<open>None\<close> when it has none).
  \<open>Faulty\<close> is a message whose processing raises after its identifier has been compared;
  the handler inside the loop logs it and goes on.
\<close>

datatype message = Message (msg_id: int) (msg_text: "string option") | Faulty (msg_id: int)

text \<open>
  What the Telegram client answers during one run: \<open>get_entity\<close> returns the channel,
  returns nothing, or raises; \<open>iter_messages\<close> delivers \<open>history\<close>, newest first, and, when
  \<open>history_error\<close> is set, raises (\<open>FloodWaitError\<close> or another exception) when asked for
  the message after them; \<open>utcnow k\<close> is the clock at the \<open>k\<close>-th call of \<open>save_link\<close>.
\<close>

datatype lookup = Found | Missing | Failed

record telegram =
  entity :: lookup
  history :: "message list"
  history_error :: bool
  utcnow :: "nat \<Rightarrow> string"

text \<open>The variables of the loop of \<open>process_messages\<close> and the file system.\<close>

record progress =
  files :: filesystem
  highest_id :: int
  saved :: nat

text \<open>\<open>for link in links: self.save_link(link)\<close>\<close>

fun save_links :: "extractor \<Rightarrow> telegram \<Rightarrow> string list \<Rightarrow> progress \<Rightarrow> progress" where
  "save_links x tg [] st = st"
| "save_links x tg (link # links) st =
     save_links x tg links
       (st\<lparr>files := save_link x (utcnow tg (saved st)) link (files st),
           saved := Suc (saved st)\<rparr>)"

text \<open>The body of the loop over the messages.\<close>

definition process_message :: "extractor \<Rightarrow> telegram \<Rightarrow> int \<Rightarrow> message \<Rightarrow> progress \<Rightarrow> progress" where
  "process_message x tg last_id m st =
     (if msg_id m \<le> last_id then st
      else
        let st' = (if msg_id m > highest_id st then st\<lparr>highest_id := msg_id m\<rparr> else st)
        in case m of
             Faulty i \<Rightarrow> st'
           | Message i content \<Rightarrow>
               (case content of
                  None \<Rightarrow> st'
                | Some text \<Rightarrow>
                    if text = [] then st'
                    else save_links x tg (extract_onion_links (Some text)) st'))"

text \<open>The messages \<open>iter_messages(channel, limit=limit)\<close> delivers, and whether it then raises.\<close>

definition delivered :: "telegram \<Rightarrow> nat \<Rightarrow> message list" where
  "delivered tg limit = take limit (history tg)"

definition iteration_raises :: "telegram \<Rightarrow> nat \<Rightarrow> bool" where
  "iteration_raises tg limit = (history_error tg \<and> length (history tg) < limit)"

text \<open>
  \<open>process_messages\<close>. Every exception ends in one of the two outer handlers, which log
  and return: the file system is then as the statements before the exception left it.
\<close>

definition process_messages :: "extractor \<Rightarrow> telegram \<Rightarrow> nat \<Rightarrow> filesystem \<Rightarrow> filesystem" where
  "process_messages x tg limit fs =
     (case entity tg of
        Failed \<Rightarrow> fs
      | Missing \<Rightarrow> fs
      | Found \<Rightarrow>
          let last_id = get_last_message_id x fs
          in case (if last_id = 0 then exec fs [OpenWrite (output_file x)] else (Returned, fs)) of
               (Raised, fs') \<Rightarrow> fs'
             | (Returned, fs') \<Rightarrow>
                 let st = fold (process_message x tg last_id) (delivered tg limit)
                            \<lparr>files = fs', highest_id = last_id, saved = 0\<rparr>
                 in if iteration_raises tg limit then files st
                    else if highest_id st > last_id
                      then save_last_message_id x (highest_id st) (files st)
                    else files st)"

text \<open>
  A sequence of runs, each with its own answers of the client and its own limit: the file
  systems before the first run and after each run.
\<close>

fun run_states :: "extractor \<Rightarrow> (telegram \<times> nat) list \<Rightarrow> filesystem \<Rightarrow> filesystem list" where
  "run_states x [] fs = [fs]"
| "run_states x ((tg, limit) # rest) fs = fs # run_states x rest (process_messages x tg limit fs)"

text \<open>A clock that stands still during a run.\<close>

definition clock_at :: "string \<Rightarrow> nat \<Rightarrow> string" where
  "clock_at now k = now"

section \<open>The run of the archive crawler\<close>

text \<open>
  What the web answers during one run: for the archive page either a request error
  (\<open>None\<close>) or the \<open>href\<close> attributes of the links the selector finds (\<open>None\<close> for a link
  without the attribute); for the \<open>i\<close>-th paste of the listing the raw body, or \<open>None\<close> on
  a request error; and the clock read while that paste is processed.
\<close>

record web =
  archive :: "string option list option"
  raw :: "nat \<Rightarrow> string \<Rightarrow> string option"
  web_utcnow :: "nat \<Rightarrow> string"

text \<open>The web on which every request for a paste fails.\<close>

definition unavailable :: "nat \<Rightarrow> string \<Rightarrow> string option" where
  "unavailable i pid = None"

definition paste_id_of :: "string option \<Rightarrow> string list" where
  "paste_id_of link =
     (case link of
        None \<Rightarrow> []
      | Some href \<Rightarrow>
          if href \<noteq> [] \<and> take 1 href = ''/''
          then [dropWhile (\<lambda>c. c = CHR ''/'') href] else [])"

definition get_archive_paste_ids :: "web \<Rightarrow> string list" where
  "get_archive_paste_ids w =
     (case archive w of
        None \<Rightarrow> []
      | Some paste_links \<Rightarrow> concat (map paste_id_of paste_links))"

definition fetch_paste_content :: "web \<Rightarrow> nat \<Rightarrow> string \<Rightarrow> string option" where
  "fetch_paste_content w i pid = raw w i pid"

record result =
  source :: string
  context_text :: string
  paste_id :: string
  url :: string
  discovered_at :: string
  keywords_found :: "string list"
  status :: string

definition raw_paste_url :: "string \<Rightarrow> string" where
  "raw_paste_url pid = ''https://pastebin.com/raw/'' @ pid"

definition process_paste :: "crawler \<Rightarrow> web \<Rightarrow> nat \<Rightarrow> string \<Rightarrow> result option" where
  "process_paste c w i pid =
     (case fetch_paste_content w i pid of
        None \<Rightarrow> None
      | Some content \<Rightarrow>
          if content = [] then None
          else
            let found = check_keywords c (Some content)
            in if found \<noteq> [] then
                 Some \<lparr> source = ''pastebin'',
                        context_text = ''Found crypto-related content in Pastebin paste ID '' @ pid,
                        paste_id = pid,
                        url = raw_paste_url pid,
                        discovered_at = web_utcnow w i,
                        keywords_found = found,
                        status = ''pending'' \<rparr>
               else None)"

definition result_json :: "result \<Rightarrow> string" where
  "result_json r =
     json_object
       [(''source'', json_string (source r)),
        (''context'', json_string (context_text r)),
        (''paste_id'', json_string (paste_id r)),
        (''url'', json_string (url r)),
        (''discovered_at'', json_string (discovered_at r)),
        (''keywords_found'', json_list (map json_string (keywords_found r))),
        (''status'', json_string (status r))]"

text \<open>\<open>save_result\<close>: nothing for a missing result; an exception of the append is not caught.\<close>

definition save_result :: "crawler \<Rightarrow> result option \<Rightarrow> filesystem \<Rightarrow> outcome \<times> filesystem" where
  "save_result c r fs =
     (case r of
        None \<Rightarrow> (Returned, fs)
      | Some res \<Rightarrow>
          exec fs [OpenAppend (crawler_output_file c),
                   Write (crawler_output_file c) (result_json res @ newline)])"

text \<open>\<open>for result in results: if result: self.save_result(result)\<close>\<close>

fun save_results :: "crawler \<Rightarrow> result option list \<Rightarrow> filesystem \<Rightarrow> outcome \<times> filesystem" where
  "save_results c [] fs = (Returned, fs)"
| "save_results c (r # rs) fs =
     (case save_result c r fs of
        (Raised, fs') \<Rightarrow> (Raised, fs')
      | (Returned, fs') \<Rightarrow> save_results c rs fs')"

text \<open>
  \<open>run\<close>. \<open>executor.map\<close> returns the results in the order of the listing, whatever
  the number of workers.
\<close>

definition run :: "crawler \<Rightarrow> web \<Rightarrow> filesystem \<Rightarrow> outcome \<times> filesystem" where
  "run c w fs =
     (let paste_ids = get_archive_paste_ids w
      in if paste_ids = [] then (Returned, fs)
         else
           (case exec fs [OpenWrite (crawler_output_file c)] of
              (Raised, fs') \<Rightarrow> (Raised, fs')
            | (Returned, fs') \<Rightarrow>
                let results = map (\<lambda>(i, pid). process_paste c w i pid)
                                (zip [0 ..< length paste_ids] paste_ids)
                in save_results c results fs'))"

section \<open>Properties\<close>

subsection \<open>Substrings\<close>

lemma contains_iff_sublist: "contains k s \<longleftrightarrow> sublist k s"
proof (induction s)
  case Nil
  show ?case by auto
next
  case (Cons c s)
  have "prefix k (c # s) \<longleftrightarrow> take (length k) (c # s) = k"
    by (metis append_eq_conv_conj prefix_def)
  with Cons show ?case
    by (auto simp: sublist_Cons_right)
qed

lemma search_bounded_contains: "search_bounded k s \<Longrightarrow> contains k s"
proof -
  assume "search_bounded k s"
  then obtain i where "take (length k) (drop i s) = k"
    by (auto simp: search_bounded_def)
  then have "s = take i s @ k @ drop (length k) (drop i s)"
    by (metis append_take_drop_id)
  then have "sublist k s"
    unfolding sublist_def by blast
  then show ?thesis
    by (simp add: contains_iff_sublist)
qed

lemma keyword_hit_iff: "keyword_hit s k \<longleftrightarrow> sublist (lower k) s"
  using search_bounded_contains [of "lower k" s]
  by (auto simp: keyword_hit_def contains_iff_sublist)

lemma keyword_hit_eq: "keyword_hit s = (\<lambda>k. sublist (lower k) s)"
  by (rule ext) (rule keyword_hit_iff)

subsection \<open>Keyword matching\<close>

text \<open>
  C1 (as amended). For every non-empty text body and every configured keyword: if the
  lowercase form of the keyword occurs as a substring of the lowercased body, wherever it
  stands and whatever surrounds it, then \<open>check_keywords\<close> returns that keyword.
\<close>

theorem check_keywords_includes_substring_keyword:
  assumes "text \<noteq> []"
    and "k \<in> set (crawler_keywords c)"
    and "sublist (lower k) (lower text)"
  shows "k \<in> set (check_keywords c (Some text))"
  using assms by (simp add: check_keywords_def keyword_hit_iff)

theorem check_keywords_includes_substring_keyword_witness:
  "''t.me'' \<in> set (check_keywords (init_crawler None ''out.jsonl'')
                    (Some ''Join t.me/group for BITCOIN''))"
proof -
  have body: "''Join t.me/group for BITCOIN'' \<noteq> []"
    by simp
  have configured: "''t.me'' \<in> set (crawler_keywords (init_crawler None ''out.jsonl''))"
    by (simp add: init_crawler_def default_keywords_def)
  have occurs: "sublist (lower ''t.me'') (lower ''Join t.me/group for BITCOIN'')"
    by code_simp
  show ?thesis
    using check_keywords_includes_substring_keyword [OF body configured occurs] .
qed

text \<open>
  The claim as written ranges over every non-null body. The empty body is not null, the
  empty keyword is a substring of it, and \<open>check_keywords\<close> returns nothing for it: the
  guard \<open>if not content\<close> answers before any keyword is looked at.
\<close>

theorem check_keywords_empty_body_counterexample:
  "[] \<in> set (crawler_keywords (init_crawler (Some [[]]) ''out.jsonl'')) \<and>
   sublist (lower []) (lower []) \<and>
   [] \<notin> set (check_keywords (init_crawler (Some [[]]) ''out.jsonl'') (Some []))"
  by (simp add: init_crawler_def check_keywords_def lower_def)

text \<open>
  C10 (as amended). \<open>check_keywords\<close> returns nothing for a missing or empty text; for
  every non-empty text it returns exactly the configured keywords whose lowercase form is
  a substring of the lowercased text, in configuration order (the word-boundary search adds
  nothing to the substring test), each configured entry at most once, so without duplicates
  when the configured list has none.
\<close>

theorem check_keywords_refines_substring_filter:
  "check_keywords c None = [] \<and>
   check_keywords c (Some text) =
     (if text = [] then [] else substring_filter (crawler_keywords c) text) \<and>
   (distinct (crawler_keywords c) \<longrightarrow> distinct (check_keywords c (Some text)))"
  by (simp add: check_keywords_def substring_filter_def keyword_hit_eq)

theorem check_keywords_refines_substring_filter_witness:
  "check_keywords (init_crawler (Some [''bitcoin'', ''nft'', ''t.me'']) ''out.jsonl'')
     (Some ''Join our crypto group at t.me/group123 for BITCOIN tips'') =
   [''bitcoin'', ''t.me''] \<and>
   distinct (check_keywords (init_crawler (Some [''bitcoin'', ''nft'', ''t.me'']) ''out.jsonl'')
     (Some ''Join our crypto group at t.me/group123 for BITCOIN tips''))"
proof -
  let ?c = "init_crawler (Some [''bitcoin'', ''nft'', ''t.me'']) ''out.jsonl''"
  let ?t = "''Join our crypto group at t.me/group123 for BITCOIN tips''"
  have nonempty: "?t \<noteq> []"
    by simp
  have configured: "distinct (crawler_keywords ?c)"
    by (simp add: init_crawler_def)
  have filtered: "substring_filter (crawler_keywords ?c) ?t = [''bitcoin'', ''t.me'']"
    by code_simp
  from check_keywords_refines_substring_filter [of ?c ?t] nonempty configured filtered
  show ?thesis
    by simp
qed

text \<open>
  On the empty text the two differ as soon as the empty keyword is configured: the
  substring filter keeps it, \<open>check_keywords\<close> returns nothing.
\<close>

theorem check_keywords_empty_text_counterexample:
  "check_keywords (init_crawler (Some [[]]) ''out.jsonl'') (Some []) = [] \<and>
   substring_filter (crawler_keywords (init_crawler (Some [[]]) ''out.jsonl'')) [] = [[]]"
  by (simp add: init_crawler_def check_keywords_def substring_filter_def lower_def)

subsection \<open>Decimal integers\<close>

lemma digit_cases: "d < 10 \<Longrightarrow> d \<in> {0, 1, 2, 3, 4, 5, 6, 7, 8, 9::nat}"
  by auto

lemma digit_char_props:
  assumes "d < 10"
  shows "is_digit (digit_char d)" and "digit_val (digit_char d) = d"
proof -
  from assms have d: "d \<in> {0, 1, 2, 3, 4, 5, 6, 7, 8, 9}"
    by (rule digit_cases)
  from d show "is_digit (digit_char d)"
    by (auto simp: is_digit_def digit_char_def ascii_digits_def)
  from d show "digit_val (digit_char d) = d"
    by (auto simp: digit_val_def digit_char_def ascii_digits_def)
qed

lemma is_digit_not_space: "is_digit c \<Longrightarrow> \<not> is_space c"
  by (auto simp: is_digit_def is_space_def ascii_digits_def)

lemma str_nat_small: "n < 10 \<Longrightarrow> str_nat n = [digit_char n]"
  by (subst str_nat.simps) simp

lemma str_nat_large:
  "\<not> n < 10 \<Longrightarrow> str_nat n = str_nat (n div 10) @ [digit_char (n mod 10)]"
  by (subst str_nat.simps) simp

lemma str_nat_digits: "\<forall>c \<in> set (str_nat n). is_digit c"
proof (induction n rule: str_nat.induct)
  case (1 n)
  show ?case
  proof (cases "n < 10")
    case True
    then show ?thesis
      by (simp add: str_nat_small digit_char_props)
  next
    case False
    moreover have "is_digit (digit_char (n mod 10))"
      by (simp add: digit_char_props)
    ultimately show ?thesis
      using 1 by (simp add: str_nat_large)
  qed
qed

lemma str_nat_nonempty: "str_nat n \<noteq> []"
  by (cases "n < 10") (simp_all add: str_nat_small str_nat_large)

lemma digits_tail_snoc:
  "\<forall>c \<in> set s. is_digit c \<Longrightarrow> is_digit d \<Longrightarrow>
   digits_tail acc (s @ [d]) = map_option (\<lambda>v. 10 * v + digit_val d) (digits_tail acc s)"
  by (induction s arbitrary: acc) auto

lemma parse_nat_digits_tail:
  "s \<noteq> [] \<Longrightarrow> \<forall>c \<in> set s. is_digit c \<Longrightarrow> parse_nat s = digits_tail 0 s"
  by (cases s) (auto simp: parse_nat_def)

lemma digits_tail_str_nat: "digits_tail 0 (str_nat n) = Some n"
proof (induction n rule: str_nat.induct)
  case (1 n)
  show ?case
  proof (cases "n < 10")
    case True
    then show ?thesis
      by (simp add: str_nat_small digit_char_props)
  next
    case False
    then have "digits_tail 0 (str_nat (n div 10)) = Some (n div 10)"
      using 1 by simp
    with False show ?thesis
      by (simp add: str_nat_large digits_tail_snoc str_nat_digits digit_char_props)
  qed
qed

lemma parse_nat_str_nat: "parse_nat (str_nat n) = Some n"
  by (simp add: parse_nat_digits_tail str_nat_nonempty str_nat_digits digits_tail_str_nat)

lemma strip_no_space: "\<forall>c \<in> set s. \<not> is_space c \<Longrightarrow> strip s = s"
proof -
  assume a: "\<forall>c \<in> set s. \<not> is_space c"
  then have "dropWhile is_space s = s"
    by (cases s) auto
  moreover from a have "dropWhile is_space (rev s) = rev s"
    by (cases "rev s") (auto simp: Cons_eq_append_conv dest: arg_cong [where f = set])
  ultimately show ?thesis
    by (simp add: strip_def)
qed

lemma py_str_no_space: "\<forall>c \<in> set (py_str n). \<not> is_space c"
  using str_nat_digits is_digit_not_space
  by (auto simp: py_str_def is_space_def)

lemma strip_py_str: "strip (py_str n) = py_str n"
  by (rule strip_no_space) (rule py_str_no_space)

lemma hd_str_nat: "\<exists>c cs. str_nat n = c # cs \<and> is_digit c"
  using str_nat_nonempty [of n] str_nat_digits [of n]
  by (cases "str_nat n") auto

lemma py_int_py_str: "py_int (py_str n) = Inr n"
proof (cases "n < 0")
  case True
  then show ?thesis
    by (simp add: py_int_def strip_py_str) (simp add: py_str_def parse_nat_str_nat)
next
  case False
  obtain c cs where s: "str_nat (nat n) = c # cs" and c: "is_digit c"
    using hd_str_nat by blast
  from c have "c \<noteq> CHR ''-''" "c \<noteq> CHR ''+''"
    by (auto simp: is_digit_def ascii_digits_def)
  moreover have "parse_nat (c # cs) = Some (nat n)"
    using parse_nat_str_nat [of "nat n"] s by simp
  ultimately show ?thesis
    using False s by (simp add: py_int_def strip_py_str) (simp add: py_str_def)
qed

lemma dropWhile_prefix_hd:
  assumes "dropWhile P t = t"
  shows "dropWhile P (rev (dropWhile P (rev t))) = rev (dropWhile P (rev t))"
proof (cases "rev (dropWhile P (rev t))")
  case Nil
  show ?thesis
    unfolding Nil by simp
next
  case (Cons a r)
  obtain u where u: "rev t = u @ dropWhile P (rev t)"
    by (metis takeWhile_dropWhile_id)
  then have "t = rev (dropWhile P (rev t)) @ rev u"
    by (metis rev_append rev_rev_ident)
  with Cons have "t = a # (r @ rev u)"
    by simp
  with assms have "\<not> P a"
    by (metis dropWhile_eq_Cons_conv)
  then show ?thesis
    unfolding Cons by simp
qed

lemma strip_idem: "strip (strip s) = strip s"
proof -
  let ?t = "dropWhile is_space s"
  have "dropWhile is_space ?t = ?t"
    by (simp add: dropWhile_idem)
  then have "dropWhile is_space (strip s) = strip s"
    unfolding strip_def by (rule dropWhile_prefix_hd)
  then show ?thesis
    by (simp add: strip_def dropWhile_idem)
qed

lemma py_int_strip: "py_int (strip s) = py_int s"
  by (simp add: py_int_def strip_idem)

lemma get_last_message_id_cases:
  "get_last_message_id x fs =
     (case fs (last_id_file x) of
        Absent \<Rightarrow> 0
      | Inaccessible \<Rightarrow> 0
      | Content s \<Rightarrow> (case py_int s of Inl e \<Rightarrow> 0 | Inr n \<Rightarrow> n))"
  by (simp add: get_last_message_id_def read_last_message_id_def read_text_def py_int_strip
      split: file_state.splits)

lemma save_last_message_id_result:
  "save_last_message_id x n fs =
     (if fs (last_id_file x) = Inaccessible then fs
      else fs(last_id_file x := Content (py_str n)))"
  by (simp add: save_last_message_id_def save_last_message_id_steps_def split: file_state.splits)

subsection \<open>The loop over the messages\<close>

lemma save_link_result:
  "save_link x now u fs =
     (case fs (output_file x) of
        Inaccessible \<Rightarrow> fs
      | Absent \<Rightarrow> fs(output_file x := Content (link_entry x now u @ newline))
      | Content s \<Rightarrow> fs(output_file x := Content (s @ link_entry x now u @ newline)))"
  by (simp add: save_link_def split: file_state.splits)

lemma save_link_frame: "p \<noteq> output_file x \<Longrightarrow> save_link x now u fs p = fs p"
  by (simp add: save_link_result split: file_state.splits)

lemma save_link_access: "save_link x now u fs p = Inaccessible \<longleftrightarrow> fs p = Inaccessible"
  by (simp add: save_link_result split: file_state.splits)

lemma save_link_prefix:
  "fs p = Content s \<Longrightarrow> \<exists>t. save_link x now u fs p = Content (s @ t)"
  by (cases "p = output_file x") (auto simp: save_link_result split: file_state.splits)

lemma save_links_highest: "highest_id (save_links x tg links st) = highest_id st"
  by (induction links arbitrary: st) simp_all

lemma save_links_frame:
  "p \<noteq> output_file x \<Longrightarrow> files (save_links x tg links st) p = files st p"
  by (induction links arbitrary: st) (simp_all add: save_link_frame)

lemma save_links_access:
  "files (save_links x tg links st) p = Inaccessible \<longleftrightarrow> files st p = Inaccessible"
  by (induction links arbitrary: st) (simp_all add: save_link_access)

lemma save_links_prefix:
  "files st p = Content s \<Longrightarrow> \<exists>t. files (save_links x tg links st) p = Content (s @ t)"
proof (induction links arbitrary: st s)
  case Nil
  then show ?case by simp
next
  case (Cons link links)
  let ?st = "st\<lparr>files := save_link x (utcnow tg (saved st)) link (files st),
                 saved := Suc (saved st)\<rparr>"
  from Cons.prems obtain t where "files ?st p = Content (s @ t)"
    using save_link_prefix [of "files st" p s x] by auto
  from Cons.IH [OF this] show ?case
    by auto
qed

lemma process_message_highest:
  "highest_id (process_message x tg last_id m st) =
     (if msg_id m \<le> last_id then highest_id st else max (highest_id st) (msg_id m))"
  by (auto simp: process_message_def Let_def save_links_highest split: message.splits option.splits)

lemma process_message_frame:
  "p \<noteq> output_file x \<Longrightarrow> files (process_message x tg last_id m st) p = files st p"
  by (auto simp: process_message_def Let_def save_links_frame split: message.splits option.splits)

lemma process_message_access:
  "files (process_message x tg last_id m st) p = Inaccessible \<longleftrightarrow> files st p = Inaccessible"
  by (auto simp: process_message_def Let_def save_links_access split: message.splits option.splits)

lemma process_message_prefix:
  assumes "files st p = Content s"
  shows "\<exists>t. files (process_message x tg last_id m st) p = Content (s @ t)"
proof -
  have "\<exists>t. files (save_links x tg links (st\<lparr>highest_id := h\<rparr>)) p = Content (s @ t)" for links h
    using assms by (intro save_links_prefix) simp
  moreover have "\<exists>t. files (save_links x tg links st) p = Content (s @ t)" for links
    using assms by (rule save_links_prefix)
  ultimately show ?thesis
    using assms
    by (auto simp: process_message_def Let_def split: message.splits option.splits)
qed

lemma process_message_skip:
  "msg_id m \<le> last_id \<Longrightarrow> process_message x tg last_id m st = st"
  by (simp add: process_message_def)

lemma fold_process_message_highest:
  "last_id \<le> highest_id st \<Longrightarrow>
   highest_id (fold (process_message x tg last_id) ms st) =
     Max (insert (highest_id st) (msg_id ` set ms))"
proof (induction ms arbitrary: st)
  case Nil
  then show ?case by simp
next
  case (Cons m ms)
  let ?st = "process_message x tg last_id m st"
  have h: "highest_id ?st = max (highest_id st) (msg_id m)"
    using Cons.prems by (auto simp: process_message_highest)
  with Cons.prems have "last_id \<le> highest_id ?st"
    by simp
  from Cons.IH [OF this] h
  have "highest_id (fold (process_message x tg last_id) (m # ms) st) =
        Max (insert (max (highest_id st) (msg_id m)) (msg_id ` set ms))"
    by simp
  also have "\<dots> = Max (insert (highest_id st) (msg_id ` set (m # ms)))"
  proof (cases "set ms = {}")
    case True
    then show ?thesis by (simp add: max.commute)
  next
    case False
    then show ?thesis
      by (simp add: max.assoc max.left_commute)
  qed
  finally show ?case .
qed

lemma fold_process_message_frame:
  "p \<noteq> output_file x \<Longrightarrow>
   files (fold (process_message x tg last_id) ms st) p = files st p"
  by (induction ms arbitrary: st) (simp_all add: process_message_frame)

lemma fold_process_message_access:
  "files (fold (process_message x tg last_id) ms st) p = Inaccessible \<longleftrightarrow>
   files st p = Inaccessible"
  by (induction ms arbitrary: st) (simp_all add: process_message_access)

lemma fold_process_message_prefix:
  "files st p = Content s \<Longrightarrow>
   \<exists>t. files (fold (process_message x tg last_id) ms st) p = Content (s @ t)"
proof (induction ms arbitrary: st s)
  case Nil
  then show ?case by simp
next
  case (Cons m ms)
  from Cons.prems obtain t
    where "files (process_message x tg last_id m st) p = Content (s @ t)"
    using process_message_prefix by blast
  from Cons.IH [OF this] show ?case
    by auto
qed

lemma fold_process_message_skip:
  "\<forall>m \<in> set ms. msg_id m \<le> last_id \<Longrightarrow>
   fold (process_message x tg last_id) ms st = st"
  by (induction ms arbitrary: st) (simp_all add: process_message_skip)

subsection \<open>One run and a sequence of runs\<close>

lemma exec_open_write:
  "exec fs [OpenWrite p] =
     (if fs p = Inaccessible then (Raised, fs) else (Returned, fs(p := Content [])))"
  by (simp split: file_state.splits)

lemma get_last_message_id_cong:
  "fs' (last_id_file x) = fs (last_id_file x) \<Longrightarrow>
   get_last_message_id x fs' = get_last_message_id x fs"
  by (simp add: get_last_message_id_cases)

lemma get_after_save:
  "fs (last_id_file x) \<noteq> Inaccessible \<Longrightarrow>
   get_last_message_id x (save_last_message_id x n fs) = n"
  by (simp add: save_last_message_id_result get_last_message_id_cases py_int_py_str)

lemma py_int_empty: "py_int [] = Inl ValueError"
  by (simp add: py_int_def strip_def)

lemma get_after_truncation:
  "get_last_message_id x fs = 0 \<Longrightarrow>
   get_last_message_id x (fs(p := Content [])) = 0"
  by (simp add: get_last_message_id_cases py_int_empty)

text \<open>The run after the channel has been found, with the loop named.\<close>

lemma process_messages_found:
  assumes "entity tg = Found"
    and "get_last_message_id x fs = 0 \<longrightarrow> fs (output_file x) \<noteq> Inaccessible"
  shows "process_messages x tg limit fs =
     (let last_id = get_last_message_id x fs;
          fs1 = (if last_id = 0 then fs(output_file x := Content []) else fs);
          st = fold (process_message x tg last_id) (delivered tg limit)
                 \<lparr>files = fs1, highest_id = last_id, saved = 0\<rparr>
      in if iteration_raises tg limit then files st
         else if highest_id st > last_id then save_last_message_id x (highest_id st) (files st)
         else files st)"
  using assms unfolding process_messages_def exec_open_write
  by (simp add: Let_def)

lemma process_messages_checkpoint_step:
  assumes distinct: "output_file x \<noteq> last_id_file x"
  shows "get_last_message_id x fs \<le> get_last_message_id x (process_messages x tg limit fs) \<and>
     (process_messages x tg limit fs (last_id_file x) \<noteq> fs (last_id_file x) \<longrightarrow>
      get_last_message_id x fs < get_last_message_id x (process_messages x tg limit fs))"
proof (cases "entity tg = Found \<and>
    (get_last_message_id x fs = 0 \<longrightarrow> fs (output_file x) \<noteq> Inaccessible)")
  case False
  then have "process_messages x tg limit fs = fs"
    unfolding process_messages_def exec_open_write
    by (cases "entity tg") (auto simp: Let_def)
  then show ?thesis
    by simp
next
  case True
  define last_id where "last_id = get_last_message_id x fs"
  define fs1 where "fs1 = (if last_id = 0 then fs(output_file x := Content []) else fs)"
  define st where "st = fold (process_message x tg last_id) (delivered tg limit)
                  \<lparr>files = fs1, highest_id = last_id, saved = 0\<rparr>"
  have run: "process_messages x tg limit fs =
     (if iteration_raises tg limit then files st
      else if highest_id st > last_id then save_last_message_id x (highest_id st) (files st)
      else files st)"
    using process_messages_found [of tg x fs limit] True
    by (simp add: st_def fs1_def last_id_def Let_def)
  have "fs1 (last_id_file x) = fs (last_id_file x)"
    using distinct by (simp add: fs1_def)
  then have same: "files st (last_id_file x) = fs (last_id_file x)"
    using distinct by (simp add: st_def fold_process_message_frame)
  then have load: "get_last_message_id x (files st) = last_id"
    unfolding last_id_def by (rule get_last_message_id_cong)
  show ?thesis
  proof (cases "\<not> iteration_raises tg limit \<and> highest_id st > last_id \<and>
      files st (last_id_file x) \<noteq> Inaccessible")
    case True
    with run have "get_last_message_id x (process_messages x tg limit fs) = highest_id st"
      by (simp add: get_after_save)
    with True show ?thesis
      by (simp add: last_id_def)
  next
    case False
    with run have "process_messages x tg limit fs = files st"
      by (auto simp: save_last_message_id_result)
    with same load show ?thesis
      by (simp add: last_id_def)
  qed
qed

lemma run_states_lower_bound:
  assumes "output_file x \<noteq> last_id_file x"
  shows "\<forall>f \<in> set (run_states x envs fs). get_last_message_id x fs \<le> get_last_message_id x f"
proof (induction envs arbitrary: fs)
  case Nil
  show ?case by simp
next
  case (Cons env envs)
  obtain tg limit where env: "env = (tg, limit)"
    by (cases env)
  have "get_last_message_id x fs \<le> get_last_message_id x (process_messages x tg limit fs)"
    using process_messages_checkpoint_step [OF assms] by blast
  with Cons.IH [of "process_messages x tg limit fs"] show ?case
    unfolding env by fastforce
qed

lemma run_states_sorted:
  assumes "output_file x \<noteq> last_id_file x"
  shows "sorted (map (get_last_message_id x) (run_states x envs fs))"
proof (induction envs arbitrary: fs)
  case Nil
  show ?case by simp
next
  case (Cons env envs)
  obtain tg limit where env: "env = (tg, limit)"
    by (cases env)
  have "get_last_message_id x fs \<le> get_last_message_id x (process_messages x tg limit fs)"
    using process_messages_checkpoint_step [OF assms] by blast
  with run_states_lower_bound [OF assms, of envs "process_messages x tg limit fs"]
  have "\<forall>f \<in> set (run_states x envs (process_messages x tg limit fs)).
          get_last_message_id x fs \<le> get_last_message_id x f"
    by fastforce
  with Cons.IH [of "process_messages x tg limit fs"] show ?case
    unfolding env by simp
qed

lemma save_result_append:
  "fs (crawler_output_file c) = Content s \<Longrightarrow>
   save_result c (Some r) fs =
     (Returned, fs(crawler_output_file c := Content (s @ result_json r @ newline)))"
  by (simp add: save_result_def)

lemma process_messages_keeps_output:
  assumes content: "fs (output_file x) = Content s"
    and started: "get_last_message_id x fs \<noteq> 0"
    and distinct: "output_file x \<noteq> last_id_file x"
  shows "\<exists>t. process_messages x tg limit fs (output_file x) = Content (s @ t)"
proof (cases "entity tg = Found")
  case False
  then have "process_messages x tg limit fs = fs"
    by (cases "entity tg") (simp_all add: process_messages_def)
  with content show ?thesis
    by simp
next
  case True
  define last_id where "last_id = get_last_message_id x fs"
  define st where "st = fold (process_message x tg last_id) (delivered tg limit)
                  \<lparr>files = fs, highest_id = last_id, saved = 0\<rparr>"
  have run: "process_messages x tg limit fs =
     (if iteration_raises tg limit then files st
      else if highest_id st > last_id then save_last_message_id x (highest_id st) (files st)
      else files st)"
    using process_messages_found [OF True, of x fs limit] started
    by (simp add: st_def last_id_def Let_def)
  obtain t where t: "files st (output_file x) = Content (s @ t)"
    unfolding st_def using fold_process_message_prefix [of _ "output_file x" s] content
    by fastforce
  have "save_last_message_id x n f (output_file x) = f (output_file x)" for n f
    using distinct by (simp add: save_last_message_id_result)
  with run t have "process_messages x tg limit fs (output_file x) = Content (s @ t)"
    by simp
  then show ?thesis ..
qed

lemma run_discards_output:
  assumes "get_archive_paste_ids w \<noteq> []" and "fs (crawler_output_file c) \<noteq> Inaccessible"
  shows "run c w fs = run c w (fs(crawler_output_file c := Content []))"
  using assms unfolding run_def exec_open_write
  by (simp add: Let_def)

lemma process_messages_discards_output:
  assumes "get_last_message_id x fs = 0" and "fs (output_file x) \<noteq> Inaccessible"
    and "output_file x \<noteq> last_id_file x" and "entity tg = Found"
  shows "process_messages x tg limit fs =
         process_messages x tg limit (fs(output_file x := Content []))"
proof -
  have "get_last_message_id x (fs(output_file x := Content [])) = 0"
    using assms(1) by (rule get_after_truncation)
  with assms show ?thesis
    unfolding process_messages_def exec_open_write
    by (simp add: Let_def)
qed

lemma process_messages_raise_frame:
  assumes "iteration_raises tg limit" and "p \<noteq> output_file x"
  shows "process_messages x tg limit fs p = fs p"
proof (cases "entity tg = Found \<and>
    (get_last_message_id x fs = 0 \<longrightarrow> fs (output_file x) \<noteq> Inaccessible)")
  case False
  then have "process_messages x tg limit fs = fs"
    unfolding process_messages_def exec_open_write
    by (cases "entity tg") (auto simp: Let_def)
  then show ?thesis
    by simp
next
  case True
  then show ?thesis
    using assms process_messages_found [of tg x fs limit]
    by (simp add: Let_def fold_process_message_frame)
qed

subsection \<open>The checkpoint\<close>

text \<open>
  C7. \<open>get_last_message_id\<close> is total: whatever the body of its \<open>try\<close> block raises is
  answered by the baseline. It returns 0 when the checkpoint file is absent, when it cannot
  be read, and when its content is not an integer literal; it returns the integer when the
  content is one, in particular when it is the decimal text of an identifier.
\<close>

theorem get_last_message_id_total:
  "get_last_message_id x fs =
     (case fs (last_id_file x) of
        Absent \<Rightarrow> 0
      | Inaccessible \<Rightarrow> 0
      | Content s \<Rightarrow> (case py_int s of Inl e \<Rightarrow> 0 | Inr n \<Rightarrow> n)) \<and>
   (\<forall>e. read_last_message_id x fs = Inl e \<longrightarrow> get_last_message_id x fs = 0) \<and>
   (fs (last_id_file x) = Content (py_str n) \<longrightarrow> get_last_message_id x fs = n)"
proof -
  have "get_last_message_id x fs = n" if "fs (last_id_file x) = Content (py_str n)"
    using that by (simp add: get_last_message_id_cases py_int_py_str)
  moreover have "get_last_message_id x fs = 0" if "read_last_message_id x fs = Inl e" for e
    using that by (simp add: get_last_message_id_def)
  ultimately show ?thesis
    using get_last_message_id_cases [of x fs] by blast
qed

theorem get_last_message_id_total_witness:
  "get_last_message_id (init_extractor 1 ''h'' ''c'') no_files = 0 \<and>
   get_last_message_id (init_extractor 1 ''h'' ''c'')
     (no_files(''last_message_id.txt'' := Inaccessible)) = 0 \<and>
   get_last_message_id (init_extractor 1 ''h'' ''c'')
     (no_files(''last_message_id.txt'' := Content ''4x2'')) = 0 \<and>
   get_last_message_id (init_extractor 1 ''h'' ''c'')
     (no_files(''last_message_id.txt'' := Content ''42'')) = 42"
proof -
  let ?x = "init_extractor 1 ''h'' ''c''"
  have path: "last_id_file ?x = ''last_message_id.txt''"
    by (simp add: init_extractor_def)
  have corrupt: "py_int ''4x2'' = Inl ValueError"
    by code_simp
  have good: "py_int ''42'' = Inr 42"
    by code_simp
  show ?thesis
    using get_last_message_id_total [of ?x no_files]
      get_last_message_id_total [of ?x "no_files(''last_message_id.txt'' := Inaccessible)"]
      get_last_message_id_total [of ?x "no_files(''last_message_id.txt'' := Content ''4x2'')"]
      get_last_message_id_total [of ?x "no_files(''last_message_id.txt'' := Content ''42'')"]
    by (simp add: path corrupt good no_files_def)
qed

text \<open>
  C8. When the checkpoint file can be opened, storing an identifier with
  \<open>save_last_message_id\<close> and loading it with \<open>get_last_message_id\<close> from the same path
  gives the identifier back, for every integer.
\<close>

theorem checkpoint_round_trip:
  assumes "fs (last_id_file x) \<noteq> Inaccessible"
  shows "get_last_message_id x (save_last_message_id x n fs) = n"
  using assms by (simp add: save_last_message_id_result get_last_message_id_cases py_int_py_str)

theorem checkpoint_round_trip_witness:
  "get_last_message_id (init_extractor 1 ''h'' ''c'')
     (save_last_message_id (init_extractor 1 ''h'' ''c'') (- 1203) no_files) = - 1203"
proof -
  have "no_files (last_id_file (init_extractor 1 ''h'' ''c'')) \<noteq> Inaccessible"
    by (simp add: no_files_def)
  with checkpoint_round_trip [where fs = no_files and x = "init_extractor 1 ''h'' ''c''"]
  show ?thesis
    by simp
qed

text \<open>
  C6 (as amended). \<open>save_last_message_id\<close> writes in place, without a temporary file or a
  rename: on a checkpoint file that can be opened, the first file operation leaves the file
  empty, and only the second one puts the decimal text of the identifier there. A process
  that stops between the two leaves an empty checkpoint, which \<open>get_last_message_id\<close>
  reads as the baseline 0; no other path is touched.
\<close>

theorem save_last_message_id_in_place:
  assumes "fs (last_id_file x) \<noteq> Inaccessible"
  shows "save_last_message_id_interrupted 0 x n fs = fs \<and>
     save_last_message_id_interrupted 1 x n fs = fs(last_id_file x := Content []) \<and>
     get_last_message_id x (save_last_message_id_interrupted 1 x n fs) = 0 \<and>
     save_last_message_id_interrupted 2 x n fs = fs(last_id_file x := Content (py_str n)) \<and>
     save_last_message_id x n fs = save_last_message_id_interrupted 2 x n fs"
proof -
  have empty: "py_int [] = Inl ValueError"
    by (simp add: py_int_def strip_def)
  have two: "take 2 (save_last_message_id_steps x n) = save_last_message_id_steps x n"
    by (simp add: save_last_message_id_steps_def)
  from assms have "save_last_message_id_interrupted 1 x n fs = fs(last_id_file x := Content [])"
    by (simp add: save_last_message_id_interrupted_def save_last_message_id_steps_def
        split: file_state.splits)
  moreover from assms
  have "save_last_message_id_interrupted 2 x n fs = fs(last_id_file x := Content (py_str n))"
    unfolding save_last_message_id_interrupted_def two
    by (simp add: save_last_message_id_steps_def split: file_state.splits)
  moreover have "save_last_message_id x n fs = save_last_message_id_interrupted 2 x n fs"
    by (simp only: save_last_message_id_def save_last_message_id_interrupted_def two)
  ultimately show ?thesis
    by (simp add: save_last_message_id_interrupted_def get_last_message_id_cases empty)
qed

theorem save_last_message_id_in_place_witness:
  "save_last_message_id_interrupted 1 (init_extractor 1 ''h'' ''c'') 42
     (no_files(''last_message_id.txt'' := Content ''41'')) =
   no_files(''last_message_id.txt'' := Content []) \<and>
   save_last_message_id (init_extractor 1 ''h'' ''c'') 42
     (no_files(''last_message_id.txt'' := Content ''41'')) =
   no_files(''last_message_id.txt'' := Content (py_str 42))"
proof -
  let ?x = "init_extractor 1 ''h'' ''c''"
  let ?fs = "no_files(''last_message_id.txt'' := Content ''41'')"
  have path: "last_id_file ?x = ''last_message_id.txt''"
    by (simp add: init_extractor_def)
  then have "?fs (last_id_file ?x) \<noteq> Inaccessible"
    by simp
  with save_last_message_id_in_place [where fs = ?fs and x = ?x and n = 42] show ?thesis
    by (simp add: path)
qed

text \<open>
  The claim as written asks for an atomic write. With the checkpoint at 41, a store of 42
  that stops after its first file operation leaves the file truncated: its content is
  empty and reading it as an integer raises.
\<close>

theorem save_last_message_id_not_atomic_counterexample:
  "get_last_message_id (init_extractor 1 ''h'' ''c'')
     (no_files(''last_message_id.txt'' := Content ''41'')) = 41 \<and>
   save_last_message_id_interrupted 1 (init_extractor 1 ''h'' ''c'') 42
     (no_files(''last_message_id.txt'' := Content ''41'')) ''last_message_id.txt'' = Content [] \<and>
   read_last_message_id (init_extractor 1 ''h'' ''c'')
     (save_last_message_id_interrupted 1 (init_extractor 1 ''h'' ''c'') 42
        (no_files(''last_message_id.txt'' := Content ''41''))) = Inl ValueError"
  by code_simp

subsection \<open>Runs of the extractor\<close>

text \<open>
  C2. In a run that finds the channel, whose iteration over the messages ends without an
  exception and whose two files can be opened, the checkpoint read afterwards is the
  greatest of the checkpoint read before and the identifiers of all delivered messages,
  whether their processing failed, found links or found nothing.
\<close>

theorem checkpoint_advances_to_highest_listed:
  assumes found: "entity tg = Found" and complete: "\<not> iteration_raises tg limit"
    and out: "fs (output_file x) \<noteq> Inaccessible"
    and chk: "fs (last_id_file x) \<noteq> Inaccessible"
  shows "get_last_message_id x (process_messages x tg limit fs) =
     Max (insert (get_last_message_id x fs) (msg_id ` set (delivered tg limit)))"
proof -
  define last_id where "last_id = get_last_message_id x fs"
  define fs1 where "fs1 = (if last_id = 0 then fs(output_file x := Content []) else fs)"
  define st where "st = fold (process_message x tg last_id) (delivered tg limit)
                  \<lparr>files = fs1, highest_id = last_id, saved = 0\<rparr>"
  have run: "process_messages x tg limit fs =
     (if highest_id st > last_id then save_last_message_id x (highest_id st) (files st)
      else files st)"
    using process_messages_found [OF found, of x fs limit] out complete
    by (simp add: st_def fs1_def last_id_def Let_def)
  have high: "highest_id st = Max (insert last_id (msg_id ` set (delivered tg limit)))"
    unfolding st_def by (subst fold_process_message_highest) simp_all
  have fs1_load: "get_last_message_id x fs1 = last_id"
    by (auto simp: fs1_def last_id_def get_after_truncation)
  have "fs1 (last_id_file x) \<noteq> Inaccessible"
    using chk by (simp add: fs1_def)
  then have access: "files st (last_id_file x) \<noteq> Inaccessible"
    by (simp add: st_def fold_process_message_access)
  show ?thesis
  proof (cases "highest_id st > last_id")
    case True
    with run access high show ?thesis
      by (simp add: get_after_save last_id_def)
  next
    case False
    have "last_id \<le> highest_id st"
      unfolding high by simp
    with False have eq: "highest_id st = last_id"
      by simp
    then have "\<forall>m \<in> set (delivered tg limit). msg_id m \<le> last_id"
      unfolding high by (metis List.finite_set Max_ge finite_imageI finite_insert image_eqI insertCI)
    then have "st = \<lparr>files = fs1, highest_id = last_id, saved = 0\<rparr>"
      unfolding st_def by (rule fold_process_message_skip)
    with False run fs1_load have "get_last_message_id x (process_messages x tg limit fs) = last_id"
      by simp
    with eq high show ?thesis
      by (simp add: last_id_def)
  qed
qed


theorem checkpoint_advances_to_highest_listed_witness:
  "get_last_message_id (init_extractor 1 ''h'' ''toronionlinks'')
     (process_messages (init_extractor 1 ''h'' ''toronionlinks'')
        \<lparr>entity = Found,
         history = [Message 3 (Some ''nothing here''), Faulty 2, Message 1 (Some ''hello'')],
         history_error = False, utcnow = clock_at ''2024-01-01T00:00:00Z''\<rparr>
        100 no_files) = 3 \<and>
   process_messages (init_extractor 1 ''h'' ''toronionlinks'')
     \<lparr>entity = Found,
      history = [Message 3 (Some ''nothing here''), Faulty 2, Message 1 (Some ''hello'')],
      history_error = False, utcnow = clock_at ''2024-01-01T00:00:00Z''\<rparr>
     100 no_files ''onion_links.jsonl'' = Content []"
proof -
  let ?x = "init_extractor 1 ''h'' ''toronionlinks''"
  let ?tg = "\<lparr>entity = Found,
     history = [Message 3 (Some ''nothing here''), Faulty 2, Message 1 (Some ''hello'')],
     history_error = False, utcnow = clock_at ''2024-01-01T00:00:00Z''\<rparr>"
  have found: "entity ?tg = Found"
    by simp
  have complete: "\<not> iteration_raises ?tg 100"
    by (simp add: iteration_raises_def)
  have out: "no_files (output_file ?x) \<noteq> Inaccessible"
    and chk: "no_files (last_id_file ?x) \<noteq> Inaccessible"
    by (simp_all add: no_files_def)
  have before: "get_last_message_id ?x no_files = 0"
    by code_simp
  have listed: "msg_id ` set (delivered ?tg 100) = {3, 2, 1}"
    by (simp add: delivered_def)
  have no_records: "process_messages ?x ?tg 100 no_files ''onion_links.jsonl'' = Content []"
    by code_simp
  from checkpoint_advances_to_highest_listed [OF found complete out chk]
  show ?thesis
    unfolding before listed using no_records by simp
qed

text \<open>
  C3. With the output and the checkpoint in different files, the checkpoint read before
  the first run and after each run of any sequence of runs never decreases; and a run
  changes the checkpoint file only to a strictly greater value.
\<close>

theorem checkpoint_monotone:
  assumes "output_file x \<noteq> last_id_file x"
  shows "sorted (map (get_last_message_id x) (run_states x envs fs)) \<and>
     (process_messages x tg limit fs (last_id_file x) \<noteq> fs (last_id_file x) \<longrightarrow>
      get_last_message_id x fs < get_last_message_id x (process_messages x tg limit fs))"
  using run_states_sorted [OF assms] process_messages_checkpoint_step [OF assms]
  by blast

theorem checkpoint_monotone_witness:
  "map (get_last_message_id (init_extractor 1 ''h'' ''toronionlinks''))
     (run_states (init_extractor 1 ''h'' ''toronionlinks'')
        [(\<lparr>entity = Found, history = [Message 5 (Some ''see a.onion''), Message 4 None],
           history_error = False, utcnow = clock_at ''2024-01-01T00:00:00Z''\<rparr>, 100),
         (\<lparr>entity = Found, history = [Message 7 (Some ''b.onion/x''), Message 5 None],
           history_error = True, utcnow = clock_at ''2024-01-02T00:00:00Z''\<rparr>, 100),
         (\<lparr>entity = Found, history = [Message 2 (Some ''c.onion'')],
           history_error = False, utcnow = clock_at ''2024-01-03T00:00:00Z''\<rparr>, 100)]
        no_files) = [0, 5, 5, 5] \<and>
   sorted (map (get_last_message_id (init_extractor 1 ''h'' ''toronionlinks''))
     (run_states (init_extractor 1 ''h'' ''toronionlinks'')
        [(\<lparr>entity = Found, history = [Message 5 (Some ''see a.onion''), Message 4 None],
           history_error = False, utcnow = clock_at ''2024-01-01T00:00:00Z''\<rparr>, 100),
         (\<lparr>entity = Found, history = [Message 7 (Some ''b.onion/x''), Message 5 None],
           history_error = True, utcnow = clock_at ''2024-01-02T00:00:00Z''\<rparr>, 100),
         (\<lparr>entity = Found, history = [Message 2 (Some ''c.onion'')],
           history_error = False, utcnow = clock_at ''2024-01-03T00:00:00Z''\<rparr>, 100)]
        no_files))"
proof -
  let ?x = "init_extractor 1 ''h'' ''toronionlinks''"
  have paths: "output_file ?x \<noteq> last_id_file ?x"
    by (simp add: init_extractor_def)
  have loaded: "map (get_last_message_id ?x)
     (run_states ?x
        [(\<lparr>entity = Found, history = [Message 5 (Some ''see a.onion''), Message 4 None],
           history_error = False, utcnow = clock_at ''2024-01-01T00:00:00Z''\<rparr>, 100),
         (\<lparr>entity = Found, history = [Message 7 (Some ''b.onion/x''), Message 5 None],
           history_error = True, utcnow = clock_at ''2024-01-02T00:00:00Z''\<rparr>, 100),
         (\<lparr>entity = Found, history = [Message 2 (Some ''c.onion'')],
           history_error = False, utcnow = clock_at ''2024-01-03T00:00:00Z''\<rparr>, 100)]
        no_files) = [0, 5, 5, 5]"
    by code_simp
  from checkpoint_monotone [OF paths] loaded show ?thesis
    by blast
qed

subsection \<open>The output file\<close>

text \<open>
  C4 (as amended). \<open>save_link\<close> and \<open>save_result\<close> only append: on an output file with
  content they add their one line after it. A run of the channel extractor that starts from
  a non-zero checkpoint, kept in another file than the output, leaves the previous content
  of the output file in place as the beginning of the new content. The pipeline is not
  append-only: a run of the archive crawler whose listing is not empty, and a run of the
  channel extractor that finds the channel and starts from checkpoint 0, first empty the
  output file, so that they end as they would have on an empty output file.
\<close>

theorem output_file_appends:
  "(fs (output_file x) = Content s \<longrightarrow>
      save_link x now u fs = fs(output_file x := Content (s @ link_entry x now u @ newline))) \<and>
   (fs (crawler_output_file c) = Content s \<longrightarrow>
      save_result c (Some r) fs =
        (Returned, fs(crawler_output_file c := Content (s @ result_json r @ newline)))) \<and>
   (fs (output_file x) = Content s \<and> get_last_message_id x fs \<noteq> 0 \<and>
    output_file x \<noteq> last_id_file x \<longrightarrow>
      (\<exists>t. process_messages x tg limit fs (output_file x) = Content (s @ t))) \<and>
   (get_archive_paste_ids w \<noteq> [] \<and> fs (crawler_output_file c) \<noteq> Inaccessible \<longrightarrow>
      run c w fs = run c w (fs(crawler_output_file c := Content []))) \<and>
   (entity tg = Found \<and> get_last_message_id x fs = 0 \<and>
    fs (output_file x) \<noteq> Inaccessible \<and> output_file x \<noteq> last_id_file x \<longrightarrow>
      process_messages x tg limit fs =
      process_messages x tg limit (fs(output_file x := Content [])))"
proof -
  have "save_link x now u fs = fs(output_file x := Content (s @ link_entry x now u @ newline))"
    if "fs (output_file x) = Content s"
    using that by (simp add: save_link_result)
  then show ?thesis
    using save_result_append [of fs c s r] process_messages_keeps_output [of fs x s tg limit]
      run_discards_output [of w fs c] process_messages_discards_output [of x fs tg limit]
    by blast
qed

theorem output_file_appends_witness:
  "save_link (init_extractor 1 ''h'' ''c'') ''2024-01-01T00:00:00Z'' ''http://a.onion''
     (no_files(''onion_links.jsonl'' := Content ''old line'',
               ''last_message_id.txt'' := Content ''5'')) =
   (no_files(''onion_links.jsonl'' := Content ''old line'',
             ''last_message_id.txt'' := Content ''5''))
     (''onion_links.jsonl'' := Content (''old line'' @
        link_entry (init_extractor 1 ''h'' ''c'') ''2024-01-01T00:00:00Z'' ''http://a.onion'' @
        newline)) \<and>
   (\<exists>t. process_messages (init_extractor 1 ''h'' ''c'')
          \<lparr>entity = Found, history = [Message 6 (Some ''see a.onion'')],
           history_error = False, utcnow = clock_at ''2024-01-01T00:00:00Z''\<rparr> 100
          (no_files(''onion_links.jsonl'' := Content ''old line'',
                    ''last_message_id.txt'' := Content ''5''))
          ''onion_links.jsonl'' = Content (''old line'' @ t)) \<and>
   run (init_crawler None ''onion_links.jsonl'')
     \<lparr>archive = Some [Some ''/abc''], raw = unavailable,
      web_utcnow = clock_at ''2024-01-01T00:00:00Z''\<rparr>
     (no_files(''onion_links.jsonl'' := Content ''old line'',
               ''last_message_id.txt'' := Content ''5'')) =
   run (init_crawler None ''onion_links.jsonl'')
     \<lparr>archive = Some [Some ''/abc''], raw = unavailable,
      web_utcnow = clock_at ''2024-01-01T00:00:00Z''\<rparr>
     ((no_files(''onion_links.jsonl'' := Content ''old line'',
                ''last_message_id.txt'' := Content ''5''))
        (''onion_links.jsonl'' := Content []))"
proof -
  let ?x = "init_extractor 1 ''h'' ''c''"
  let ?c = "init_crawler None ''onion_links.jsonl''"
  let ?fs = "no_files(''onion_links.jsonl'' := Content ''old line'',
                      ''last_message_id.txt'' := Content ''5'')"
  let ?w = "\<lparr>archive = Some [Some ''/abc''], raw = unavailable,
             web_utcnow = clock_at ''2024-01-01T00:00:00Z''\<rparr>"
  have paths: "output_file ?x = ''onion_links.jsonl''" "last_id_file ?x = ''last_message_id.txt''"
    "crawler_output_file ?c = ''onion_links.jsonl''"
    by (simp_all add: init_extractor_def init_crawler_def)
  have content: "?fs ''onion_links.jsonl'' = Content ''old line''"
    by simp
  have started: "get_last_message_id ?x ?fs \<noteq> 0"
    by code_simp
  have listed: "get_archive_paste_ids ?w \<noteq> []"
    by code_simp
  from output_file_appends [where fs = ?fs and x = ?x and c = ?c and s = "''old line''"
      and w = ?w and now = "''2024-01-01T00:00:00Z''" and u = "''http://a.onion''"
      and tg = "\<lparr>entity = Found, history = [Message 6 (Some ''see a.onion'')],
           history_error = False, utcnow = clock_at ''2024-01-01T00:00:00Z''\<rparr>"
      and limit = 100]
    content started listed
  show ?thesis
    unfolding paths by simp
qed

text \<open>
  The claim as written says that no run removes an existing line. A run of the archive
  crawler that lists one paste and cannot fetch it leaves an output file that held a line
  empty; so does a run of the channel extractor that has no checkpoint yet and finds no
  link.
\<close>

theorem output_file_truncated_counterexample:
  "snd (run (init_crawler None ''keyword_matches.jsonl'')
          \<lparr>archive = Some [Some ''/abc''], raw = unavailable,
           web_utcnow = clock_at ''2024-01-01T00:00:00Z''\<rparr>
          (no_files(''keyword_matches.jsonl'' := Content ''old line'')))
     ''keyword_matches.jsonl'' = Content [] \<and>
   process_messages (init_extractor 1 ''h'' ''c'')
     \<lparr>entity = Found, history = [Message 1 (Some ''hello'')],
      history_error = False, utcnow = clock_at ''2024-01-01T00:00:00Z''\<rparr> 100
     (no_files(''onion_links.jsonl'' := Content ''old line''))
     ''onion_links.jsonl'' = Content []"
  by code_simp

subsection \<open>Runs whose listing fails\<close>

text \<open>
  C5 (as amended). A run of the archive crawler whose listing fails or is empty returns
  with the file system as it was. A run of the channel extractor that does not find the
  channel leaves the file system as it was. When the channel is found and the iteration
  delivers no message, whether it raises or just ends, the only change there can be is
  that the output file has been emptied: this happens exactly when the checkpoint read at
  the start is 0 and the output file can be opened. When the iteration raises, at once or
  after it has delivered messages, every file other than the output file is as it was, so
  a checkpoint kept in another file is not written.
\<close>

theorem listing_failure_effects:
  "(archive w = None \<longrightarrow> get_archive_paste_ids w = []) \<and>
   (get_archive_paste_ids w = [] \<longrightarrow> run c w fs = (Returned, fs)) \<and>
   (entity tg \<noteq> Found \<longrightarrow> process_messages x tg limit fs = fs) \<and>
   (entity tg = Found \<and> delivered tg limit = [] \<longrightarrow>
      process_messages x tg limit fs =
        (if get_last_message_id x fs = 0 \<and> fs (output_file x) \<noteq> Inaccessible
         then fs(output_file x := Content []) else fs)) \<and>
   (iteration_raises tg limit \<and> p \<noteq> output_file x \<longrightarrow>
      process_messages x tg limit fs p = fs p)"
proof -
  have "process_messages x tg limit fs = fs" if "entity tg \<noteq> Found"
    using that by (cases "entity tg") (simp_all add: process_messages_def)
  moreover have "process_messages x tg limit fs =
        (if get_last_message_id x fs = 0 \<and> fs (output_file x) \<noteq> Inaccessible
         then fs(output_file x := Content []) else fs)"
    if "entity tg = Found" and "delivered tg limit = []"
    using that unfolding process_messages_def exec_open_write
    by (simp add: Let_def)
  moreover have "process_messages x tg limit fs p = fs p"
    if "iteration_raises tg limit" and "p \<noteq> output_file x"
    using that by (rule process_messages_raise_frame)
  ultimately show ?thesis
    by (simp add: get_archive_paste_ids_def run_def)
qed

theorem listing_failure_effects_witness:
  "run (init_crawler None ''keyword_matches.jsonl'')
     \<lparr>archive = None, raw = unavailable, web_utcnow = clock_at ''2024-01-01T00:00:00Z''\<rparr>
     (no_files(''keyword_matches.jsonl'' := Content ''old line'')) =
   (Returned, no_files(''keyword_matches.jsonl'' := Content ''old line'')) \<and>
   process_messages (init_extractor 1 ''h'' ''c'')
     \<lparr>entity = Failed, history = [], history_error = False,
      utcnow = clock_at ''2024-01-01T00:00:00Z''\<rparr> 100
     (no_files(''onion_links.jsonl'' := Content ''old line'')) =
   no_files(''onion_links.jsonl'' := Content ''old line'') \<and>
   process_messages (init_extractor 1 ''h'' ''c'')
     \<lparr>entity = Found, history = [], history_error = True,
      utcnow = clock_at ''2024-01-01T00:00:00Z''\<rparr> 100
     (no_files(''onion_links.jsonl'' := Content ''old line'',
               ''last_message_id.txt'' := Content ''5'')) =
   no_files(''onion_links.jsonl'' := Content ''old line'',
            ''last_message_id.txt'' := Content ''5'') \<and>
   process_messages (init_extractor 1 ''h'' ''c'')
     \<lparr>entity = Found, history = [Message 7 (Some ''see a.onion'')], history_error = True,
      utcnow = clock_at ''2024-01-01T00:00:00Z''\<rparr> 100
     (no_files(''onion_links.jsonl'' := Content ''old line'',
               ''last_message_id.txt'' := Content ''5''))
     ''last_message_id.txt'' = Content ''5''"
proof -
  let ?x = "init_extractor 1 ''h'' ''c''"
  let ?c = "init_crawler None ''keyword_matches.jsonl''"
  let ?w = "\<lparr>archive = None, raw = unavailable,
             web_utcnow = clock_at ''2024-01-01T00:00:00Z''\<rparr>"
  let ?failed = "\<lparr>entity = Failed, history = [], history_error = False,
                  utcnow = clock_at ''2024-01-01T00:00:00Z''\<rparr>"
  let ?silent = "\<lparr>entity = Found, history = [], history_error = True,
                  utcnow = clock_at ''2024-01-01T00:00:00Z''\<rparr>"
  let ?broken = "\<lparr>entity = Found, history = [Message 7 (Some ''see a.onion'')],
                  history_error = True, utcnow = clock_at ''2024-01-01T00:00:00Z''\<rparr>"
  let ?fs = "no_files(''onion_links.jsonl'' := Content ''old line'',
                      ''last_message_id.txt'' := Content ''5'')"
  have started: "get_last_message_id ?x ?fs \<noteq> 0"
    by code_simp
  have raises: "iteration_raises ?broken 100"
    by (simp add: iteration_raises_def)
  have other: "''last_message_id.txt'' \<noteq> output_file ?x"
    by (simp add: init_extractor_def)
  from listing_failure_effects [where w = ?w and c = ?c and tg = ?failed and x = ?x
      and limit = 100 and fs = "no_files(''keyword_matches.jsonl'' := Content ''old line'')"]
  have "run ?c ?w (no_files(''keyword_matches.jsonl'' := Content ''old line'')) =
      (Returned, no_files(''keyword_matches.jsonl'' := Content ''old line''))"
    by simp
  moreover
  from listing_failure_effects [where w = ?w and c = ?c and tg = ?failed and x = ?x
      and limit = 100 and fs = "no_files(''onion_links.jsonl'' := Content ''old line'')"]
  have "process_messages ?x ?failed 100 (no_files(''onion_links.jsonl'' := Content ''old line'')) =
      no_files(''onion_links.jsonl'' := Content ''old line'')"
    by simp
  moreover
  from listing_failure_effects [where w = ?w and c = ?c and tg = ?silent and x = ?x
      and limit = 100 and fs = ?fs]
  have "process_messages ?x ?silent 100 ?fs = ?fs"
    by (simp add: started delivered_def)
  moreover
  from listing_failure_effects [where w = ?w and c = ?c and tg = ?broken and x = ?x
      and limit = 100 and fs = ?fs and p = "''last_message_id.txt''"] raises other
  have "process_messages ?x ?broken 100 ?fs ''last_message_id.txt'' = Content ''5''"
    by simp
  ultimately show ?thesis
    by simp
qed

text \<open>
  The claim as written has no file touched when the listing fails. With no checkpoint yet,
  an output file that holds a line, and an iteration that raises before it delivers a
  message, the channel extractor has emptied the output file.
\<close>

theorem listing_failure_truncates_counterexample:
  "iteration_raises
     \<lparr>entity = Found, history = [], history_error = True,
      utcnow = clock_at ''2024-01-01T00:00:00Z''\<rparr> 100 \<and>
   delivered
     \<lparr>entity = Found, history = [], history_error = True,
      utcnow = clock_at ''2024-01-01T00:00:00Z''\<rparr> 100 = [] \<and>
   process_messages (init_extractor 1 ''h'' ''c'')
     \<lparr>entity = Found, history = [], history_error = True,
      utcnow = clock_at ''2024-01-01T00:00:00Z''\<rparr> 100
     (no_files(''onion_links.jsonl'' := Content ''old line''))
     ''onion_links.jsonl'' = Content []"
  by code_simp

subsection \<open>The groups of a match\<close>

lemma lower_take: "lower (take n s) = take n (lower s)"
  by (simp add: lower_def take_map)

lemma match_protocol_scheme:
  "match_protocol s = Some n \<Longrightarrow> lower (take n s) \<in> {''http://'', ''https://''}"
proof -
  assume found: "match_protocol s = Some n"
  have l8: "length ''https://'' = 8" and l7: "length ''http://'' = 7"
    by simp_all
  from found show ?thesis
    unfolding match_protocol_def starts_with_ci_def l8 l7 lower_take
    by (auto split: if_splits)
qed

lemma host_length_bounds: "host_length k s = Some j \<Longrightarrow> 0 < j \<and> j \<le> k"
  by (induction k) (auto split: if_splits)

lemma match_host_chars:
  assumes "match_host s = Some j"
  shows "take j s \<noteq> [] \<and> (\<forall>c \<in> set (take j s). is_host_char c)"
proof -
  let ?run = "takeWhile is_host_char s"
  from assms have j: "0 < j" "j \<le> length ?run"
    using host_length_bounds [of "length ?run" s j] by (simp_all add: match_host_def)
  have "length ?run \<le> length s"
    by (rule length_takeWhile_le)
  with j have "take j s \<noteq> []"
    by auto
  moreover have "take j (?run @ dropWhile is_host_char s) = take j ?run"
    using j by (simp del: takeWhile_dropWhile_id)
  then have "take j s = take j ?run"
    by simp
  then have "\<forall>c \<in> set (take j s). is_host_char c"
    by (metis in_set_takeD set_takeWhileD)
  ultimately show ?thesis
    by simp
qed

lemma match_path_chars:
  "match_path s = [] \<or>
   (\<exists>r. match_path s = CHR ''/'' # r \<and> (\<forall>c \<in> set r. is_path_char c))"
  by (auto simp: match_path_def split: list.splits dest: set_takeWhileD)


text \<open>The shape of the three groups of a match.\<close>

lemma match_from_host_groups:
  assumes "match_from_host p s = Some ((g1, g2, g3), rest)"
  shows "g1 = p \<and> g2 \<noteq> [] \<and> (\<forall>c \<in> set g2. is_host_char c) \<and>
     (g3 = [] \<or> (\<exists>r. g3 = CHR ''/'' # r \<and> (\<forall>c \<in> set r. is_path_char c)))"
proof -
  from assms obtain j where j: "match_host s = Some j"
    and groups: "g1 = p" "g2 = take j s" "g3 = match_path (drop (j + 6) s)"
    by (auto simp: match_from_host_def Let_def split: option.splits)
  from match_host_chars [OF j] match_path_chars [of "drop (j + 6) s"] groups
  show ?thesis
    by simp
qed

lemma match_here_groups:
  assumes "match_here s = Some ((g1, g2, g3), rest)"
  shows "(g1 = [] \<or> lower g1 \<in> {''http://'', ''https://''}) \<and>
     g2 \<noteq> [] \<and> (\<forall>c \<in> set g2. is_host_char c) \<and>
     (g3 = [] \<or> (\<exists>r. g3 = CHR ''/'' # r \<and> (\<forall>c \<in> set r. is_path_char c)))"
proof -
  from assms obtain p t where m: "match_from_host p t = Some ((g1, g2, g3), rest)"
    and p: "p = [] \<or> (\<exists>n. match_protocol s = Some n \<and> p = take n s)"
    by (auto simp: match_here_def split: option.splits)
  from p have "p = [] \<or> lower p \<in> {''http://'', ''https://''}"
    using match_protocol_scheme by blast
  with match_from_host_groups [OF m] show ?thesis
    by simp
qed

lemma findall_groups:
  "(g1, g2, g3) \<in> set (findall s) \<Longrightarrow>
   (g1 = [] \<or> lower g1 \<in> {''http://'', ''https://''}) \<and>
   g2 \<noteq> [] \<and> (\<forall>c \<in> set g2. is_host_char c) \<and>
   (g3 = [] \<or> (\<exists>r. g3 = CHR ''/'' # r \<and> (\<forall>c \<in> set r. is_path_char c)))"
proof (induction s rule: findall.induct)
  case (1 s)
  show ?case
  proof (cases "s = []")
    case True
    with "1.prems" show ?thesis
      by (simp add: findall.simps)
  next
    case False
    show ?thesis
    proof (cases "match_here s")
      case None
      with False "1.prems" have "(g1, g2, g3) \<in> set (findall (tl s))"
        by (subst (asm) findall.simps) simp
      with "1.IH"(1) [OF False None] show ?thesis .
    next
      case (Some m)
      obtain groups rest where m: "m = (groups, rest)"
        by (cases m)
      from False Some m "1.prems" have "(g1, g2, g3) = groups \<or> (g1, g2, g3) \<in> set (findall rest)"
        by (subst (asm) findall.simps) auto
      then show ?thesis
      proof
        assume "(g1, g2, g3) = groups"
        with Some m have "match_here s = Some ((g1, g2, g3), rest)"
          by simp
        then show ?thesis
          by (rule match_here_groups)
      next
        assume "(g1, g2, g3) \<in> set (findall rest)"
        with "1.IH"(2) [OF False Some m [symmetric]] show ?thesis .
      qed
    qed
  qed
qed

subsection \<open>Characters and case\<close>

lemma lower_char_range:
  "lower_char c = c \<or> (c \<in> set ascii_upper \<and> lower_char c \<in> set ascii_lower)"
proof (cases "map_of (zip ascii_upper ascii_lower) c")
  case None
  then show ?thesis
    by (simp add: lower_char_def)
next
  case (Some l)
  then have "(c, l) \<in> set (zip ascii_upper ascii_lower)"
    by (rule map_of_SomeD)
  then have "c \<in> set ascii_upper" and "l \<in> set ascii_lower"
    by (auto dest: set_zip_leftD set_zip_rightD)
  with Some show ?thesis
    by (simp add: lower_char_def)
qed

lemma is_host_char_lower: "is_host_char (lower_char c) \<longleftrightarrow> is_host_char c"
  using lower_char_range [of c]
  by (auto simp: is_host_char_def is_alnum_def)

lemma lower_Cons: "lower (c # s) = lower_char c # lower s"
  by (simp add: lower_def)

lemma lower_append: "lower (a @ b) = lower a @ lower b"
  by (simp add: lower_def)

lemma length_lower: "length (lower s) = length s"
  by (simp add: lower_def)

lemma host_chars_lower: "(\<forall>c \<in> set (lower s). is_host_char c) \<longleftrightarrow> (\<forall>c \<in> set s. is_host_char c)"
  by (simp add: lower_def is_host_char_lower)

lemma onion_chars: "\<forall>c \<in> set ''.onion''. is_host_char c"
  by (simp add: is_host_char_def is_alnum_def ascii_lower_def)

lemma dot_onion:
  assumes "lower dot = ''.onion''"
  shows "length dot = 6" and "\<forall>c \<in> set dot. is_host_char c"
proof -
  from assms have "length (lower dot) = 6"
    by simp
  then show "length dot = 6"
    by (simp add: length_lower)
  from assms onion_chars have "\<forall>c \<in> set (lower dot). is_host_char c"
    by simp
  then show "\<forall>c \<in> set dot. is_host_char c"
    by (simp add: host_chars_lower)
qed


subsection \<open>Where nothing matches\<close>

lemma starts_with_ci_Cons:
  "starts_with_ci (l # literal) (c # s) \<longleftrightarrow> lower_char c = l \<and> starts_with_ci literal s"
  by (simp add: starts_with_ci_def lower_Cons)

lemma match_protocol_first:
  "match_protocol (c # s) = Some n \<Longrightarrow> lower_char c = CHR ''h''"
  by (auto simp: match_protocol_def starts_with_ci_Cons split: if_splits)

lemma h_is_host_char: "is_host_char (CHR ''h'')"
  by (simp add: is_host_char_def is_alnum_def ascii_lower_def)

lemma findall_Nil: "findall [] = []"
  by (simp add: findall.simps)

subsection \<open>The match of a delimited link\<close>

lemma host_length_greatest:
  "0 < j \<Longrightarrow> j \<le> k \<Longrightarrow> starts_with_ci ''.onion'' (drop j s) \<Longrightarrow>
   (\<forall>i. j < i \<and> i \<le> k \<longrightarrow> \<not> starts_with_ci ''.onion'' (drop i s)) \<Longrightarrow>
   host_length k s = Some j"
proof (induction k)
  case 0
  then show ?case by simp
next
  case (Suc k)
  show ?case
  proof (cases "j = Suc k")
    case True
    with Suc.prems show ?thesis
      by simp
  next
    case False
    with Suc.prems have "j \<le> k" and "\<not> starts_with_ci ''.onion'' (drop (Suc k) s)"
      by auto
    with Suc show ?thesis
      by simp
  qed
qed

lemma starts_with_onion: "starts_with_ci ''.onion'' s \<longleftrightarrow> take 6 (lower s) = ''.onion''"
proof -
  have l: "length ''.onion'' = 6"
    by simp
  show ?thesis
    unfolding starts_with_ci_def l ..
qed

lemma no_onion_short:
  assumes short: "length a < 6" and tail: "tail = [] \<or> \<not> is_host_char (hd tail)"
  shows "\<not> starts_with_ci ''.onion'' (a @ tail)"
proof
  assume "starts_with_ci ''.onion'' (a @ tail)"
  then have eq: "take 6 (lower (a @ tail)) = ''.onion''"
    by (simp only: starts_with_onion)
  then have "length (take 6 (lower (a @ tail))) = 6"
    by simp
  with short have "tail \<noteq> []"
    by (auto simp: length_lower)
  then obtain c t where ct: "tail = c # t"
    by (cases tail) auto
  from short have "take 6 (lower (a @ tail)) ! length a = lower (a @ tail) ! length a"
    by simp
  also have "\<dots> = lower_char c"
    by (simp add: ct lower_append lower_Cons nth_append length_lower)
  finally have "lower_char c = ''.onion'' ! length a"
    using eq by simp
  moreover from short have "''.onion'' ! length a \<in> set ''.onion''"
    by (intro nth_mem) simp
  ultimately have "is_host_char (lower_char c)"
    using onion_chars by auto
  with tail ct show False
    by (simp add: is_host_char_lower)
qed

lemma match_host_exact:
  assumes h: "h \<noteq> []" "\<forall>c \<in> set h. is_host_char c"
    and dot: "lower dot = ''.onion''"
    and tail: "tail = [] \<or> \<not> is_host_char (hd tail)"
  shows "match_host (h @ dot @ tail) = Some (length h)"
proof -
  let ?s = "h @ dot @ tail"
  note d = dot_onion [OF dot]
  have "takeWhile is_host_char tail = []"
    using tail by (cases tail) auto
  with h d have run: "takeWhile is_host_char ?s = h @ dot"
    by (simp add: takeWhile_append2)
  have here: "starts_with_ci ''.onion'' (drop (length h) ?s)"
    using dot d by (simp add: starts_with_onion lower_append)
  have later: "\<not> starts_with_ci ''.onion'' (drop i ?s)"
    if "length h < i" and "i \<le> length h + 6" for i
  proof -
    from that d have "drop i ?s = drop (i - length h) dot @ tail"
      by simp
    moreover from that d have "length (drop (i - length h) dot) < 6"
      by simp
    ultimately show ?thesis
      using no_onion_short [OF _ tail] by simp
  qed
  from h have "0 < length h"
    by simp
  then have "host_length (length h + 6) ?s = Some (length h)"
    using here later by (intro host_length_greatest) auto
  with run d show ?thesis
    by (simp add: match_host_def)
qed

lemma slash_is_path_char: "is_path_char (CHR ''/'')"
  by (simp add: is_path_char_def)

lemma host_char_is_path_char: "is_host_char c \<Longrightarrow> is_path_char c"
  by (auto simp: is_host_char_def is_path_char_def)

lemma slash_not_host_char: "\<not> is_host_char (CHR ''/'')"
  by (simp add: is_host_char_def is_alnum_def ascii_lower_def ascii_upper_def ascii_digits_def)

lemma match_path_exact:
  assumes q: "q = [] \<or> (\<exists>r. q = CHR ''/'' # r \<and> (\<forall>c \<in> set r. is_path_char c))"
    and post: "post = [] \<or> \<not> is_path_char (hd post)"
  shows "match_path (q @ post) = q"
proof -
  have stop: "takeWhile is_path_char post = []"
    using post by (cases post) auto
  from q show ?thesis
  proof
    assume "q = []"
    with post slash_is_path_char show ?thesis
      by (cases post) (auto simp: match_path_def)
  next
    assume "\<exists>r. q = CHR ''/'' # r \<and> (\<forall>c \<in> set r. is_path_char c)"
    then obtain r where "q = CHR ''/'' # r" and "\<forall>c \<in> set r. is_path_char c"
      by blast
    with stop show ?thesis
      by (simp add: match_path_def takeWhile_append2)
  qed
qed

lemma match_from_host_exact:
  assumes h: "h \<noteq> []" "\<forall>c \<in> set h. is_host_char c"
    and dot: "lower dot = ''.onion''"
    and q: "q = [] \<or> (\<exists>r. q = CHR ''/'' # r \<and> (\<forall>c \<in> set r. is_path_char c))"
    and post: "post = [] \<or> \<not> is_path_char (hd post)"
  shows "match_from_host p (h @ dot @ q @ post) = Some ((p, h, q), post)"
proof -
  have tail: "q @ post = [] \<or> \<not> is_host_char (hd (q @ post))"
    using q post slash_not_host_char host_char_is_path_char by (cases q) auto
  have host: "match_host (h @ dot @ q @ post) = Some (length h)"
    using match_host_exact [OF h dot tail] .
  have "drop (length h + 6) (h @ dot @ q @ post) = q @ post"
    using dot_onion(1) [OF dot] by simp
  with host match_path_exact [OF q post] show ?thesis
    by (simp add: match_from_host_def Let_def)
qed


lemma starts_with_http: "starts_with_ci ''http://'' s \<longleftrightarrow> take 7 (lower s) = ''http://''"
proof -
  have l: "length ''http://'' = 7"
    by simp
  show ?thesis
    unfolding starts_with_ci_def l ..
qed

lemma starts_with_https: "starts_with_ci ''https://'' s \<longleftrightarrow> take 8 (lower s) = ''https://''"
proof -
  have l: "length ''https://'' = 8"
    by simp
  show ?thesis
    unfolding starts_with_ci_def l ..
qed

lemma colon_not_host_char: "\<not> is_host_char (CHR '':'')"
  by (simp add: is_host_char_def is_alnum_def ascii_lower_def ascii_upper_def ascii_digits_def)

lemma match_protocol_host_run:
  assumes "7 \<le> length a" and "\<forall>c \<in> set a. is_host_char c"
  shows "match_protocol (a @ tail) = None"
proof (rule ccontr)
  assume "match_protocol (a @ tail) \<noteq> None"
  then have "take 7 (lower (a @ tail)) = ''http://'' \<or> take 8 (lower (a @ tail)) = ''https://''"
    by (auto simp: match_protocol_def starts_with_http starts_with_https split: if_splits)
  then have "CHR '':'' \<in> set (take 7 (lower (a @ tail)))"
  proof
    assume "take 7 (lower (a @ tail)) = ''http://''"
    then show ?thesis
      by simp
  next
    assume "take 8 (lower (a @ tail)) = ''https://''"
    then have "take 7 (take 8 (lower (a @ tail))) = take 7 ''https://''"
      by simp
    then have "take 7 (lower (a @ tail)) = ''https:/''"
      by simp
    then show ?thesis
      by simp
  qed
  moreover from assms(1) have "take 7 (lower (a @ tail)) = take 7 (lower a)"
    by (simp add: lower_append length_lower)
  ultimately have "CHR '':'' \<in> set (lower a)"
    by (auto dest: in_set_takeD)
  with assms(2) have "is_host_char (CHR '':'')"
    using host_chars_lower [of a] by blast
  with colon_not_host_char show False
    by simp
qed

lemma match_protocol_exact:
  assumes "lower p = ''http://'' \<or> lower p = ''https://''"
  shows "match_protocol (p @ s) = Some (length p)"
  using assms
proof
  assume p: "lower p = ''http://''"
  then have "length (lower p) = 7"
    by simp
  then have "length p = 7"
    by (simp add: length_lower)
  with p show ?thesis
    by (simp add: match_protocol_def starts_with_http starts_with_https lower_append)
next
  assume p: "lower p = ''https://''"
  then have "length (lower p) = 8"
    by simp
  then have "length p = 8"
    by (simp add: length_lower)
  with p show ?thesis
    by (simp add: match_protocol_def starts_with_https lower_append)
qed

lemma match_here_exact:
  assumes p: "p = [] \<or> lower p = ''http://'' \<or> lower p = ''https://''"
    and h: "h \<noteq> []" "\<forall>c \<in> set h. is_host_char c"
    and dot: "lower dot = ''.onion''"
    and q: "q = [] \<or> (\<exists>r. q = CHR ''/'' # r \<and> (\<forall>c \<in> set r. is_path_char c))"
    and post: "post = [] \<or> \<not> is_path_char (hd post)"
  shows "match_here (p @ h @ dot @ q @ post) = Some ((p, h, q), post)"
proof (cases "p = []")
  case True
  have "7 \<le> length (h @ dot)" and "\<forall>c \<in> set (h @ dot). is_host_char c"
    using h dot_onion [OF dot] by (cases h, auto)
  then have "match_protocol ((h @ dot) @ q @ post) = None"
    by (rule match_protocol_host_run)
  with True match_from_host_exact [OF h dot q post, of "[]"] show ?thesis
    by (simp add: match_here_def)
next
  case False
  with p have "match_protocol (p @ h @ dot @ q @ post) = Some (length p)"
    by (intro match_protocol_exact) simp
  with match_from_host_exact [OF h dot q post, of p] show ?thesis
    by (simp add: match_here_def)
qed

subsection \<open>Every match is a piece of the text\<close>

lemma host_length_follows:
  "host_length k s = Some j \<Longrightarrow> starts_with_ci ''.onion'' (drop j s)"
  by (induction k) (auto split: if_splits)

lemma match_path_prefix: "match_path s @ drop (length (match_path s)) s = s"
  by (cases s) (simp_all add: match_path_def dropWhile_eq_drop [symmetric])

lemma match_from_host_span:
  assumes "match_from_host p s = Some ((g1, g2, g3), rest)"
  shows "\<exists>dot. lower dot = ''.onion'' \<and> s = g2 @ dot @ g3 @ rest"
proof -
  from assms obtain j where j: "match_host s = Some j"
    and groups: "g2 = take j s" "g3 = match_path (drop (j + 6) s)"
      "rest = drop (length g3) (drop (j + 6) s)"
    by (auto simp: match_from_host_def Let_def split: option.splits)
  let ?dot = "take 6 (drop j s)"
  from j have "starts_with_ci ''.onion'' (drop j s)"
    unfolding match_host_def by (rule host_length_follows)
  then have "lower ?dot = ''.onion''"
    by (simp add: starts_with_onion lower_take)
  moreover have "drop (j + 6) s = g3 @ rest"
    unfolding groups by (simp only: match_path_prefix)
  then have "s = g2 @ ?dot @ g3 @ rest"
    unfolding groups(1) by (metis add.commute append_take_drop_id drop_drop)
  ultimately show ?thesis
    by blast
qed

lemma match_here_span:
  assumes "match_here s = Some ((g1, g2, g3), rest)"
  shows "\<exists>dot. lower dot = ''.onion'' \<and> s = g1 @ g2 @ dot @ g3 @ rest"
proof -
  from assms consider "match_from_host [] s = Some ((g1, g2, g3), rest)"
    | n where "match_from_host (take n s) (drop n s) = Some ((g1, g2, g3), rest)"
    by (auto simp: match_here_def split: option.splits)
  then show ?thesis
  proof cases
    case 1
    from match_from_host_groups [OF 1] match_from_host_span [OF 1] show ?thesis
      by auto
  next
    case 2
    from match_from_host_groups [OF 2] match_from_host_span [OF 2]
    obtain dot where "lower dot = ''.onion''" and "g1 = take n s"
      and "drop n s = g2 @ dot @ g3 @ rest"
      by auto
    then have "s = g1 @ g2 @ dot @ g3 @ rest"
      by (metis append_take_drop_id)
    with \<open>lower dot = ''.onion''\<close> show ?thesis
      by blast
  qed
qed

lemma findall_span:
  "(g1, g2, g3) \<in> set (findall s) \<Longrightarrow>
   \<exists>dot. lower dot = ''.onion'' \<and> sublist (g1 @ g2 @ dot @ g3) s"
proof (induction s rule: findall.induct)
  case (1 s)
  show ?case
  proof (cases "s = []")
    case True
    with "1.prems" show ?thesis
      by (simp add: findall_Nil)
  next
    case False
    show ?thesis
    proof (cases "match_here s")
      case None
      with False "1.prems" have "(g1, g2, g3) \<in> set (findall (tl s))"
        by (subst (asm) findall.simps) simp
      with "1.IH"(1) [OF False None]
      obtain dot where "lower dot = ''.onion''" and "sublist (g1 @ g2 @ dot @ g3) (tl s)"
        by blast
      moreover from False have "sublist (tl s) s"
        by (metis list.collapse sublist_Cons_right sublist_order.order_refl)
      ultimately show ?thesis
        by (meson sublist_order.order_trans)
    next
      case (Some m)
      obtain groups rest where m: "m = (groups, rest)"
        by (cases m)
      obtain a b c where groups: "groups = (a, b, c)"
        by (cases groups)
      from Some m groups obtain d where d: "lower d = ''.onion''" "s = a @ b @ d @ c @ rest"
        using match_here_span [of s a b c rest] by auto
      from False Some m "1.prems" have "(g1, g2, g3) = groups \<or> (g1, g2, g3) \<in> set (findall rest)"
        by (subst (asm) findall.simps) auto
      then show ?thesis
      proof
        assume "(g1, g2, g3) = groups"
        with groups d have "s = [] @ (g1 @ g2 @ d @ g3) @ rest"
          by simp
        then have "sublist (g1 @ g2 @ d @ g3) s"
          unfolding sublist_def by blast
        with d(1) show ?thesis
          by blast
      next
        assume "(g1, g2, g3) \<in> set (findall rest)"
        with "1.IH"(2) [OF False Some m [symmetric]]
        obtain dot where "lower dot = ''.onion''" and "sublist (g1 @ g2 @ dot @ g3) rest"
          by blast
        moreover from d(2) have "sublist rest s"
          by (metis append.assoc sublist_append_leftI)
        ultimately show ?thesis
          by (meson sublist_order.order_trans)
      qed
    qed
  qed
qed


subsection \<open>The text before a link\<close>

lemma findall_no_onion:
  assumes "\<not> sublist ''.onion'' (lower s)"
  shows "findall s = []"
proof (cases "findall s")
  case (Cons g gs)
  obtain g1 g2 g3 where "g = (g1, g2, g3)"
    by (cases g)
  with Cons have "(g1, g2, g3) \<in> set (findall s)"
    by simp
  then obtain dot where dot: "lower dot = ''.onion''" and "sublist (g1 @ g2 @ dot @ g3) s"
    using findall_span by blast
  then have "sublist dot s"
    by (metis append.assoc sublist_appendI sublist_order.order_trans)
  then have "sublist (lower dot) (lower s)"
    unfolding lower_def by (rule map_mono_sublist)
  with dot assms show ?thesis
    by simp
qed simp

text \<open>
  In \<open>http://\<close> and \<open>https://\<close> the host characters come first: once a part of the
  literal has ended with another character, no host character follows.
\<close>

lemma protocol_split:
  assumes lit: "a @ b = ''http://'' \<or> a @ b = ''https://''"
    and a: "a \<noteq> []" "\<not> is_host_char (last a)" and b: "b \<noteq> []"
  shows "\<not> is_host_char (hd b)"
proof -
  have letters: "is_host_char (CHR ''h'')" "is_host_char (CHR ''t'')" "is_host_char (CHR ''p'')"
    "is_host_char (CHR ''s'')"
    by (simp_all add: is_host_char_def is_alnum_def ascii_lower_def)
  from b have "hd b \<in> set b"
    by simp
  from lit a b letters show ?thesis
    using slash_not_host_char colon_not_host_char
    by (elim disjE) (auto simp: append_eq_Cons_conv Cons_eq_append_conv)
qed

lemma no_match_before:
  assumes t: "t \<noteq> []" "\<not> is_host_char (last t)"
    and free: "\<not> sublist ''.onion'' (lower t)"
    and open_end: "\<not> suffix ''http://'' (lower t)" "\<not> suffix ''https://'' (lower t)"
    and next_char: "is_host_char u0"
  shows "match_here (t @ u0 # u) = None"
proof (cases "match_here (t @ u0 # u)")
  case (Some m)
  obtain g1 g2 g3 rest where m: "m = ((g1, g2, g3), rest)"
    by (cases m) auto
  from Some m obtain dot where dot: "lower dot = ''.onion''"
    and span: "t @ u0 # u = g1 @ g2 @ dot @ g3 @ rest"
    using match_here_span by blast
  from Some m have groups: "g1 = [] \<or> lower g1 \<in> {''http://'', ''https://''}"
    "\<forall>c \<in> set g2. is_host_char c"
    using match_here_groups [of "t @ u0 # u" g1 g2 g3 rest] by simp_all
  note d = dot_onion [OF dot]
  have False
  proof (cases "length (g1 @ g2 @ dot) \<le> length t")
    case True
    from span have "take (length (g1 @ g2 @ dot)) (t @ u0 # u) = g1 @ g2 @ dot"
      by (metis append.assoc append_eq_conv_conj)
    with True have "take (length (g1 @ g2 @ dot)) t = g1 @ g2 @ dot"
      by simp
    then have "t = (g1 @ g2) @ dot @ drop (length (g1 @ g2 @ dot)) t"
      by (metis append.assoc append_take_drop_id)
    then have "sublist dot t"
      unfolding sublist_def by blast
    then have "sublist (lower dot) (lower t)"
      unfolding lower_def by (rule map_mono_sublist)
    with dot free show False
      by simp
  next
    case False
    have inside: "length t \<le> length g1"
    proof (rule ccontr)
      assume far: "\<not> length t \<le> length g1"
      define w where "w = g2 @ dot"
      define i where "i = length t - 1"
      from far False t(1) have k: "length g1 \<le> i" "i < length g1 + length w" "i < length t"
        by (simp_all add: w_def i_def)
      from span have span': "t @ u0 # u = g1 @ w @ g3 @ rest"
        by (simp add: w_def)
      from k have j: "i - length g1 < length w"
        by arith
      from t(1) have "last t = t ! i"
        by (simp add: last_conv_nth i_def)
      also from k have "\<dots> = (t @ u0 # u) ! i"
        by (simp add: nth_append)
      also from k j have "\<dots> = w ! (i - length g1)"
        unfolding span' by (simp add: nth_append)
      finally have "last t \<in> set w"
        using j by simp
      with groups(2) d(2) t(2) show False
        by (auto simp: w_def)
    qed
    from span have "take (length t) (g1 @ g2 @ dot @ g3 @ rest) = t"
      by (metis append_eq_conv_conj)
    with inside have t_g1: "take (length t) g1 = t"
      by simp
    then obtain v where g1: "g1 = t @ v"
      by (metis append_take_drop_id)
    with t(1) groups(1) have lit: "lower t @ lower v = ''http://'' \<or> lower t @ lower v = ''https://''"
      by (auto simp: lower_append)
    show False
    proof (cases "v = []")
      case True
      with lit have "lower t = ''http://'' \<or> lower t = ''https://''"
        by (simp add: lower_def)
      with open_end show False
        by auto
    next
      case False
      then obtain v0 v' where v: "v = v0 # v'"
        by (cases v) auto
      from span g1 v have "v0 = u0"
        by simp
      from t have "lower t \<noteq> []" and "\<not> is_host_char (last (lower t))"
        by (simp_all add: lower_def last_map is_host_char_lower)
      with lit have "\<not> is_host_char (hd (lower v))"
        using protocol_split [of "lower t" "lower v"] v by (simp add: lower_Cons)
      with v \<open>v0 = u0\<close> next_char show False
        by (simp add: lower_Cons is_host_char_lower)
    qed
  qed
  then show ?thesis ..
qed simp

lemma findall_skip:
  assumes "pre = [] \<or> \<not> is_host_char (last pre)"
    and "\<not> sublist ''.onion'' (lower pre)"
    and "\<not> suffix ''http://'' (lower pre)" and "\<not> suffix ''https://'' (lower pre)"
    and "is_host_char u0"
  shows "findall (pre @ u0 # u) = findall (u0 # u)"
  using assms
proof (induction pre)
  case Nil
  show ?case by simp
next
  case (Cons c pre)
  from Cons.prems have "match_here ((c # pre) @ u0 # u) = None"
    by (intro no_match_before) simp_all
  then have step: "findall ((c # pre) @ u0 # u) = findall (pre @ u0 # u)"
    by (subst findall.simps) simp
  from Cons.prems have "pre = [] \<or> \<not> is_host_char (last pre)"
    by (cases pre) auto
  moreover from Cons.prems have "\<not> sublist ''.onion'' (lower pre)"
    by (auto simp: lower_Cons sublist_Cons_right)
  moreover from Cons.prems
  have "\<not> suffix ''http://'' (lower pre)" and "\<not> suffix ''https://'' (lower pre)"
    by (auto simp: lower_Cons suffix_Cons)
  ultimately show ?case
    using Cons.IH Cons.prems(5) step by simp
qed

lemma findall_delimited:
  assumes pre: "pre = [] \<or> \<not> is_host_char (last pre)" "\<not> sublist ''.onion'' (lower pre)"
      "\<not> suffix ''http://'' (lower pre)" "\<not> suffix ''https://'' (lower pre)"
    and p: "p = [] \<or> lower p = ''http://'' \<or> lower p = ''https://''"
    and h: "h \<noteq> []" "\<forall>c \<in> set h. is_host_char c"
    and dot: "lower dot = ''.onion''"
    and q: "q = [] \<or> (\<exists>r. q = CHR ''/'' # r \<and> (\<forall>c \<in> set r. is_path_char c))"
    and post: "post = [] \<or> \<not> is_path_char (hd post)"
  shows "findall (pre @ p @ h @ dot @ q @ post) = (p, h, q) # findall post"
proof -
  let ?s = "p @ h @ dot @ q @ post"
  from h obtain u0 u where s: "?s = u0 # u"
    by (cases ?s) auto
  have "is_host_char u0"
  proof (cases "p = []")
    case True
    with s h show ?thesis
      by (cases h) auto
  next
    case False
    with s obtain p' where "p = u0 # p'"
      by (cases p) auto
    with p have "lower_char u0 = CHR ''h''"
      by (auto simp: lower_Cons)
    with h_is_host_char show ?thesis
      by (metis is_host_char_lower)
  qed
  with pre have "findall (pre @ u0 # u) = findall (u0 # u)"
    by (intro findall_skip)
  moreover have "match_here ?s = Some ((p, h, q), post)"
    using p h dot q post by (rule match_here_exact)
  then have "findall ?s = (p, h, q) # findall post"
    using s by (subst findall.simps) simp
  ultimately show ?thesis
    using s by simp
qed

subsection \<open>Extracted links\<close>

lemma full_url_groups:
  "full_url (g1, g2, g3) = (if g1 = [] then ''http://'' else g1) @ g2 @ ''.onion'' @ g3"
  by (simp add: full_url_def)

lemma extract_onion_links_delimited:
  assumes pre: "pre = [] \<or> \<not> is_host_char (last pre)" "\<not> sublist ''.onion'' (lower pre)"
      "\<not> suffix ''http://'' (lower pre)" "\<not> suffix ''https://'' (lower pre)"
    and p: "p = [] \<or> lower p = ''http://'' \<or> lower p = ''https://''"
    and h: "h \<noteq> []" "\<forall>c \<in> set h. is_host_char c"
    and dot: "lower dot = ''.onion''"
    and q: "q = [] \<or> (\<exists>r. q = CHR ''/'' # r \<and> (\<forall>c \<in> set r. is_path_char c))"
    and post: "post = [] \<or> \<not> is_path_char (hd post)"
  shows "extract_onion_links (Some (pre @ p @ h @ dot @ q @ post)) =
     ((if p = [] then ''http://'' else p) @ h @ ''.onion'' @ q) #
     extract_onion_links (Some post)"
proof -
  have "extract_onion_links (Some post) = map full_url (findall post)"
    by (simp add: extract_onion_links_def findall_Nil)
  moreover from h have "pre @ p @ h @ dot @ q @ post \<noteq> []"
    by simp
  ultimately show ?thesis
    using findall_delimited [OF pre p h dot q post]
    by (simp add: extract_onion_links_def full_url_groups)
qed

lemma extract_onion_links_sound:
  assumes "link \<in> set (extract_onion_links content)"
  shows "\<exists>body p h dot q.
     content = Some body \<and>
     link = (if p = [] then ''http://'' else p) @ h @ ''.onion'' @ q \<and>
     sublist (p @ h @ dot @ q) body \<and>
     (p = [] \<or> lower p = ''http://'' \<or> lower p = ''https://'') \<and>
     h \<noteq> [] \<and> (\<forall>c \<in> set h. is_host_char c) \<and> lower dot = ''.onion'' \<and>
     (q = [] \<or> (\<exists>r. q = CHR ''/'' # r \<and> (\<forall>c \<in> set r. is_path_char c)))"
proof -
  from assms obtain body m where body: "content = Some body"
    and m: "m \<in> set (findall body)" and link: "link = full_url m"
    by (auto simp: extract_onion_links_def split: option.splits if_splits)
  obtain p h q where phq: "m = (p, h, q)"
    by (cases m)
  from m phq obtain dot where "lower dot = ''.onion''" and "sublist (p @ h @ dot @ q) body"
    using findall_span by blast
  moreover from m phq have "(p = [] \<or> lower p = ''http://'' \<or> lower p = ''https://'') \<and>
     h \<noteq> [] \<and> (\<forall>c \<in> set h. is_host_char c) \<and>
     (q = [] \<or> (\<exists>r. q = CHR ''/'' # r \<and> (\<forall>c \<in> set r. is_path_char c)))"
    using findall_groups [of p h q body] by auto
  moreover have "link = (if p = [] then ''http://'' else p) @ h @ ''.onion'' @ q"
    unfolding link phq by (rule full_url_groups)
  ultimately show ?thesis
    using body by blast
qed

text \<open>
  C9. On ASCII text \<open>extract_onion_links\<close> returns exactly the links the pattern finds,
  each rebuilt from the three groups of its match. Every link it returns is the protocol
  of an occurrence in the text, or \<open>http://\<close> when the occurrence has none, followed by
  the host of the occurrence, by \<open>.onion\<close> in lowercase and by its path; the occurrence
  is a piece of the text made of an optional \<open>http://\<close> or \<open>https://\<close> in any case, a
  non-empty run of host characters, \<open>.onion\<close> in any case and an optional path. And an
  occurrence is extracted with just these parts: when the text before it holds no
  \<open>.onion\<close>, does not end with a host character or a protocol, and the text after it does
  not go on with a path character, the result is its link followed by the links of the
  text after it. For the text \<open>visit http://abc123xyz.onion/page?x=1 now\<close> the result is
  the one link \<open>http://abc123xyz.onion/page?x=1\<close>.
\<close>

theorem extract_onion_links_normalized:
  "extract_onion_links (Some ''visit http://abc123xyz.onion/page?x=1 now'') =
     [''http://abc123xyz.onion/page?x=1''] \<and>
   ((\<forall>c \<in> set (pre @ post). is_ascii c) \<and>
    (pre = [] \<or> \<not> is_host_char (last pre)) \<and> \<not> sublist ''.onion'' (lower pre) \<and>
    \<not> suffix ''http://'' (lower pre) \<and> \<not> suffix ''https://'' (lower pre) \<and>
    (p = [] \<or> lower p = ''http://'' \<or> lower p = ''https://'') \<and>
    h \<noteq> [] \<and> (\<forall>c \<in> set h. is_host_char c) \<and> lower dot = ''.onion'' \<and>
    (q = [] \<or> (\<exists>r. q = CHR ''/'' # r \<and> (\<forall>c \<in> set r. is_path_char c))) \<and>
    (post = [] \<or> \<not> is_path_char (hd post)) \<longrightarrow>
      extract_onion_links (Some (pre @ p @ h @ dot @ q @ post)) =
        ((if p = [] then ''http://'' else p) @ h @ ''.onion'' @ q) #
        extract_onion_links (Some post)) \<and>
   ((\<forall>c \<in> set body. is_ascii c) \<longrightarrow>
    (\<forall>link \<in> set (extract_onion_links (Some body)).
       \<exists>p h dot q.
         link = (if p = [] then ''http://'' else p) @ h @ ''.onion'' @ q \<and>
         sublist (p @ h @ dot @ q) body \<and>
         (p = [] \<or> lower p = ''http://'' \<or> lower p = ''https://'') \<and>
         h \<noteq> [] \<and> (\<forall>c \<in> set h. is_host_char c) \<and> lower dot = ''.onion'' \<and>
         (q = [] \<or> (\<exists>r. q = CHR ''/'' # r \<and> (\<forall>c \<in> set r. is_path_char c)))))"
proof -
  have scenario: "extract_onion_links (Some ''visit http://abc123xyz.onion/page?x=1 now'') =
     [''http://abc123xyz.onion/page?x=1'']"
    by code_simp
  have sound: "\<exists>p h dot q.
         link = (if p = [] then ''http://'' else p) @ h @ ''.onion'' @ q \<and>
         sublist (p @ h @ dot @ q) body \<and>
         (p = [] \<or> lower p = ''http://'' \<or> lower p = ''https://'') \<and>
         h \<noteq> [] \<and> (\<forall>c \<in> set h. is_host_char c) \<and> lower dot = ''.onion'' \<and>
         (q = [] \<or> (\<exists>r. q = CHR ''/'' # r \<and> (\<forall>c \<in> set r. is_path_char c)))"
    if "link \<in> set (extract_onion_links (Some body))" for link
    using extract_onion_links_sound [OF that] by auto
  from scenario sound extract_onion_links_delimited [of pre p h dot q post] show ?thesis
    by blast
qed

theorem extract_onion_links_normalized_witness:
  "extract_onion_links (Some ''see HTTPS://Foo.ONION/x! and more'') = [''HTTPS://Foo.onion/x''] \<and>
   (\<exists>p h dot q.
      ''HTTPS://Foo.onion/x'' = (if p = [] then ''http://'' else p) @ h @ ''.onion'' @ q \<and>
      sublist (p @ h @ dot @ q) ''see HTTPS://Foo.ONION/x! and more'' \<and>
      (p = [] \<or> lower p = ''http://'' \<or> lower p = ''https://'') \<and>
      h \<noteq> [] \<and> (\<forall>c \<in> set h. is_host_char c) \<and> lower dot = ''.onion'' \<and>
      (q = [] \<or> (\<exists>r. q = CHR ''/'' # r \<and> (\<forall>c \<in> set r. is_path_char c))))"
proof -
  let ?body = "''see HTTPS://Foo.ONION/x! and more''"
  have ascii: "\<forall>c \<in> set (''see '' @ ''! and more''). is_ascii c" "\<forall>c \<in> set ?body. is_ascii c"
    by code_simp+
  have before: "''see '' = [] \<or> \<not> is_host_char (last ''see '')"
    "\<not> sublist ''.onion'' (lower ''see '')"
    "\<not> suffix ''http://'' (lower ''see '')" "\<not> suffix ''https://'' (lower ''see '')"
    by code_simp+
  have protocol: "''HTTPS://'' = [] \<or> lower ''HTTPS://'' = ''http://'' \<or>
      lower ''HTTPS://'' = ''https://''"
    by code_simp
  have host: "''Foo'' \<noteq> []" "\<forall>c \<in> set ''Foo''. is_host_char c" "lower ''.ONION'' = ''.onion''"
    by code_simp+
  have "\<forall>c \<in> set ''x''. is_path_char c"
    by code_simp
  then have path: "''/x'' = [] \<or> (\<exists>r. ''/x'' = CHR ''/'' # r \<and> (\<forall>c \<in> set r. is_path_char c))"
    by simp
  have after: "''! and more'' = [] \<or> \<not> is_path_char (hd ''! and more'')"
    by code_simp
  have rest: "extract_onion_links (Some ''! and more'') = []"
    by code_simp
  note inst = extract_onion_links_normalized [where pre = "''see ''" and p = "''HTTPS://''"
      and h = "''Foo''" and dot = "''.ONION''" and q = "''/x''" and post = "''! and more''"
      and body = ?body]
  from inst ascii(1) before protocol host path after
  have "extract_onion_links (Some (''see '' @ ''HTTPS://'' @ ''Foo'' @ ''.ONION'' @ ''/x'' @
      ''! and more'')) =
      ((if ''HTTPS://'' = [] then ''http://'' else ''HTTPS://'') @ ''Foo'' @ ''.onion'' @ ''/x'') #
      extract_onion_links (Some ''! and more'')"
    by blast
  with rest have result: "extract_onion_links (Some ?body) = [''HTTPS://Foo.onion/x'']"
    by simp
  then have "''HTTPS://Foo.onion/x'' \<in> set (extract_onion_links (Some ?body))"
    by simp
  with inst ascii(2) result show ?thesis
    by blast
qed

end
